theory Spec2Isabelle
  imports Main "HOL-Library.Word" "HOL-Library.AList"
begin

unbundle bit_operations_syntax

section \<open>Bit packing: include/piranha/utils/bit_packing.hpp\<close>

text \<open>
  The integral type \<open>T\<close> of the C++ templates is a word \<open>'a word\<close> of \<open>LENGTH('a)\<close> bits
  (32, 64 or 128 for the packable types; the development is generic in the width).
  For a signed \<open>T\<close> the word is read in two's complement (\<open>sint\<close>, \<open>\<le>s\<close>, \<open><s\<close>), for an
  unsigned \<open>T\<close> as a natural number (\<open>unat\<close>, \<open>\<le>\<close>, \<open><\<close>).  The \<open>unsigned\<close> counters
  (\<open>m_index\<close>, \<open>m_size\<close>, \<open>m_pbits\<close>, \<open>m_cur_shift\<close>) are natural numbers: they never
  exceed the bit width of \<open>T\<close> after a successful construction.

  The three exception classes thrown by the header are the constructors of \<open>error\<close>.
  A constructor that throws creates no object: it returns \<open>Inl e\<close>.  A member function
  that throws leaves the object as it is at the \<open>throw\<close>: \<open>operator<<\<close> and \<open>operator>>\<close>
  return the outcome together with the object's state.
\<close>

datatype error = overflow_error | out_of_range | invalid_argument

text \<open>
  Modelled from the spec: \<open>detail::limits_minmax<T>\<close> and \<open>detail::limits_digits<T>\<close>
  are defined in piranha/detail/limits.hpp, outside the header verified here.  For a signed \<open>T\<close> the
  spec takes "the full signed range of \<open>W\<close>", and \<open>nbits = digits + 1\<close> is the width.
\<close>

definition limits_min :: "'a::len word" where
  "limits_min = - (2 ^ (LENGTH('a) - 1))"

definition limits_max :: "'a::len word" where
  "limits_max = 2 ^ (LENGTH('a) - 1) - 1"

subsection \<open>\<open>signed_bit_packer_impl\<close>\<close>

record 'w signed_bit_packer_impl =
  sp_value :: 'w
  sp_min :: 'w
  sp_max :: 'w
  sp_index :: nat
  sp_size :: nat
  sp_pbits :: nat
  sp_cur_shift :: nat

text \<open>\<open>nbits / size - static_cast<unsigned>(nbits % size == 0u)\<close>\<close>

definition signed_pbits :: "nat \<Rightarrow> nat \<Rightarrow> nat" where
  "signed_pbits nbits sz = nbits div sz - (if nbits mod sz = 0 then 1 else 0)"

definition signed_bit_packer :: "nat \<Rightarrow> error + ('a::len word) signed_bit_packer_impl" where
  "signed_bit_packer sz =
     (let nbits = LENGTH('a) in
      if sz \<ge> nbits then Inl overflow_error
      else if sz \<noteq> 0 then
        (if sz = 1 then
           Inr \<lparr>sp_value = 0, sp_min = limits_min, sp_max = limits_max, sp_index = 0,
                sp_size = sz, sp_pbits = nbits, sp_cur_shift = 0\<rparr>
         else
           (let pbits = signed_pbits nbits sz in
            Inr \<lparr>sp_value = 0, sp_min = - (push_bit (pbits - 1) 1),
                 sp_max = push_bit (pbits - 1) 1 - 1, sp_index = 0,
                 sp_size = sz, sp_pbits = pbits, sp_cur_shift = 0\<rparr>))
      else
        Inr \<lparr>sp_value = 0, sp_min = 0, sp_max = 0, sp_index = 0,
             sp_size = sz, sp_pbits = 0, sp_cur_shift = 0\<rparr>)"

definition signed_push ::
  "('a::len word) signed_bit_packer_impl \<Rightarrow> 'a word
     \<Rightarrow> error option \<times> ('a word) signed_bit_packer_impl" where
  "signed_push st n =
     (if sp_index st = sp_size st then (Some out_of_range, st)
      else if n <s sp_min st \<or> sp_max st <s n then (Some overflow_error, st)
      else
        (let tmp = push_bit (sp_cur_shift st) (1 :: 'a word) in
         (None, st\<lparr>sp_value := sp_value st + n * tmp,
                    sp_index := sp_index st + 1,
                    sp_cur_shift := sp_cur_shift st + sp_pbits st\<rparr>)))"

definition signed_get :: "('a::len word) signed_bit_packer_impl \<Rightarrow> error + 'a word" where
  "signed_get st = (if sp_index st < sp_size st then Inl out_of_range else Inr (sp_value st))"

subsection \<open>\<open>unsigned_bit_packer_impl\<close>\<close>

record 'w unsigned_bit_packer_impl =
  up_value :: 'w
  up_max :: 'w
  up_index :: nat
  up_size :: nat
  up_pbits :: nat
  up_cur_shift :: nat

definition unsigned_bit_packer :: "nat \<Rightarrow> error + ('a::len word) unsigned_bit_packer_impl" where
  "unsigned_bit_packer sz =
     (let nbits = LENGTH('a) in
      if sz > nbits then Inl overflow_error
      else if sz \<noteq> 0 then
        (let pbits = nbits div sz in
         Inr \<lparr>up_value = 0, up_max = drop_bit (nbits - pbits) (- 1), up_index = 0,
              up_size = sz, up_pbits = pbits, up_cur_shift = 0\<rparr>)
      else
        Inr \<lparr>up_value = 0, up_max = 0, up_index = 0,
             up_size = sz, up_pbits = 0, up_cur_shift = 0\<rparr>)"

definition unsigned_push ::
  "('a::len word) unsigned_bit_packer_impl \<Rightarrow> 'a word
     \<Rightarrow> error option \<times> ('a word) unsigned_bit_packer_impl" where
  "unsigned_push st n =
     (if up_index st = up_size st then (Some out_of_range, st)
      else if n > up_max st then (Some overflow_error, st)
      else
        (None, st\<lparr>up_value := up_value st + push_bit (up_cur_shift st) n,
                   up_index := up_index st + 1,
                   up_cur_shift := up_cur_shift st + up_pbits st\<rparr>))"

definition unsigned_get :: "('a::len word) unsigned_bit_packer_impl \<Rightarrow> error + 'a word" where
  "unsigned_get st = (if up_index st < up_size st then Inl out_of_range else Inr (up_value st))"

subsection \<open>Pushing a sequence of values and fetching the packed word\<close>

text \<open>
  The loop \<open>for (...) bp << x;\<close> of \<open>sbp_compute_minmax_packed\<close> and of every user of
  the packer: it stops at the first \<open>throw\<close>.
\<close>

fun signed_push_all ::
  "('a::len word) signed_bit_packer_impl \<Rightarrow> 'a word list
     \<Rightarrow> error option \<times> ('a word) signed_bit_packer_impl" where
  "signed_push_all st [] = (None, st)"
| "signed_push_all st (x # xs) =
     (case signed_push st x of
        (Some e, st') \<Rightarrow> (Some e, st')
      | (None, st') \<Rightarrow> signed_push_all st' xs)"

fun unsigned_push_all ::
  "('a::len word) unsigned_bit_packer_impl \<Rightarrow> 'a word list
     \<Rightarrow> error option \<times> ('a word) unsigned_bit_packer_impl" where
  "unsigned_push_all st [] = (None, st)"
| "unsigned_push_all st (x # xs) =
     (case unsigned_push st x of
        (Some e, st') \<Rightarrow> (Some e, st')
      | (None, st') \<Rightarrow> unsigned_push_all st' xs)"

text \<open>Construct a packer of the given size, push the values in order, call \<open>get()\<close>.\<close>

definition signed_pack :: "nat \<Rightarrow> ('a::len word) list \<Rightarrow> error + 'a word" where
  "signed_pack sz xs =
     (case signed_bit_packer sz of
        Inl e \<Rightarrow> Inl e
      | Inr st \<Rightarrow>
          (case signed_push_all st xs of
             (Some e, _) \<Rightarrow> Inl e
           | (None, st') \<Rightarrow> signed_get st'))"

definition unsigned_pack :: "nat \<Rightarrow> ('a::len word) list \<Rightarrow> error + 'a word" where
  "unsigned_pack sz xs =
     (case unsigned_bit_packer sz of
        Inl e \<Rightarrow> Inl e
      | Inr st \<Rightarrow>
          (case unsigned_push_all st xs of
             (Some e, _) \<Rightarrow> Inl e
           | (None, st') \<Rightarrow> unsigned_get st'))"

subsection \<open>\<open>sbp_compute_minmax_packed\<close> and the tables \<open>sbp_mmp_*\<close>\<close>

text \<open>
  One iteration of the outer loop of \<open>sbp_compute_minmax_packed\<close>, for \<open>size = i + 1\<close>:
  pack \<open>size\<close> copies of \<open>min\<close> and \<open>size\<close> copies of \<open>max\<close>.
\<close>

definition sbp_minmax_packed_entry :: "nat \<Rightarrow> error + ('a::len word \<times> 'a word)" where
  "sbp_minmax_packed_entry sz =
     (let nbits = LENGTH('a);
          pbits = signed_pbits nbits sz;
          mn = - (push_bit (pbits - 1) (1 :: 'a word));
          mx = push_bit (pbits - 1) (1 :: 'a word) - 1
      in case signed_pack sz (replicate sz mn) of
           Inl e \<Rightarrow> Inl e
         | Inr pmin \<Rightarrow>
             (case signed_pack sz (replicate sz mx) of
                Inl e \<Rightarrow> Inl e
              | Inr pmax \<Rightarrow> Inr (pmin, pmax)))"

fun sbp_entries :: "nat list \<Rightarrow> error + ('a::len word \<times> 'a word) list" where
  "sbp_entries [] = Inr []"
| "sbp_entries (i # js) =
     (case sbp_minmax_packed_entry (i + 1) of
        Inl e \<Rightarrow> Inl e
      | Inr mm \<Rightarrow> (case sbp_entries js of Inl e \<Rightarrow> Inl e | Inr rest \<Rightarrow> Inr (mm # rest)))"

definition sbp_compute_minmax_packed :: "error + ('a::len word \<times> 'a word) list" where
  "sbp_compute_minmax_packed =
     (case sbp_entries [1 ..< LENGTH('a) - 1] of
        Inl e \<Rightarrow> Inl e
      | Inr rest \<Rightarrow> Inr ((limits_min, limits_max) # rest))"

text \<open>
  Modelled from the spec: the constants \<open>sbp_mmp_int\<close>, \<open>sbp_mmp_long\<close>,
  \<open>sbp_mmp_long_long\<close> and \<open>sbp_mmp_int128\<close> are declared \<open>extern\<close> in the header and
  defined in a separate translation unit, outside the header verified here.  The spec says
  the per-arity bounds are "the packed encoding of \<open>k\<close> copies of \<open>lo\<close> resp. \<open>hi\<close>",
  "precomputed and stored as a constant table": the table is the value of
  \<open>sbp_compute_minmax_packed\<close> (which never throws, see \<open>sbp_compute_minmax_packed_total\<close>).
\<close>

definition sbp_get_mmp :: "('a::len word \<times> 'a word) list" where
  "sbp_get_mmp = (case sbp_compute_minmax_packed of Inl e \<Rightarrow> [] | Inr t \<Rightarrow> t)"

subsection \<open>\<open>signed_bit_unpacker_impl\<close>\<close>

record 'w signed_bit_unpacker_impl =
  su_value :: 'w
  su_min :: 'w
  su_s_value :: 'w
  su_index :: nat
  su_size :: nat
  su_pbits :: nat
  su_cur_shift :: nat

definition signed_bit_unpacker ::
  "'a::len word \<Rightarrow> nat \<Rightarrow> error + ('a word) signed_bit_unpacker_impl" where
  "signed_bit_unpacker n sz =
     (let nbits = LENGTH('a) in
      if sz \<ge> nbits then Inl overflow_error
      else if sz \<noteq> 0 then
        (if sz = 1 then
           Inr \<lparr>su_value = n, su_min = n, su_s_value = 0, su_index = 0,
                su_size = sz, su_pbits = 0, su_cur_shift = 0\<rparr>
         else
           (let (min_n, max_n) = sbp_get_mmp ! (sz - 1) in
            if n <s min_n \<or> max_n <s n then Inl overflow_error
            else
              (let pbits = signed_pbits nbits sz in
               Inr \<lparr>su_value = n, su_min = - (push_bit (pbits - 1) 1),
                    su_s_value = n - min_n, su_index = 0,
                    su_size = sz, su_pbits = pbits, su_cur_shift = 0\<rparr>)))
      else if n \<noteq> 0 then Inl invalid_argument
      else
        Inr \<lparr>su_value = n, su_min = 0, su_s_value = 0, su_index = 0,
             su_size = sz, su_pbits = 0, su_cur_shift = 0\<rparr>)"

definition signed_pop ::
  "('a::len word) signed_bit_unpacker_impl
     \<Rightarrow> (error + 'a word) \<times> ('a word) signed_bit_unpacker_impl" where
  "signed_pop st =
     (if su_index st = su_size st then (Inl out_of_range, st)
      else
        (Inr ((su_s_value st mod push_bit (su_cur_shift st + su_pbits st) 1)
                div push_bit (su_cur_shift st) 1 + su_min st),
         st\<lparr>su_index := su_index st + 1,
            su_cur_shift := su_cur_shift st + su_pbits st\<rparr>))"

subsection \<open>\<open>unsigned_bit_unpacker_impl\<close>\<close>

record 'w unsigned_bit_unpacker_impl =
  uu_value :: 'w
  uu_mask :: 'w
  uu_index :: nat
  uu_size :: nat
  uu_pbits :: nat

definition unsigned_bit_unpacker ::
  "'a::len word \<Rightarrow> nat \<Rightarrow> error + ('a word) unsigned_bit_unpacker_impl" where
  "unsigned_bit_unpacker n sz =
     (let nbits = LENGTH('a) in
      if sz > nbits then Inl overflow_error
      else if sz \<noteq> 0 then
        (let pbits = nbits div sz;
             max_decodable = drop_bit (nbits mod sz) (- 1 :: 'a word)
         in if n > max_decodable then Inl overflow_error
            else
              Inr \<lparr>uu_value = n, uu_mask = drop_bit (nbits - pbits) (- 1), uu_index = 0,
                   uu_size = sz, uu_pbits = (if sz = 1 then 0 else pbits)\<rparr>)
      else if n \<noteq> 0 then Inl invalid_argument
      else
        Inr \<lparr>uu_value = n, uu_mask = 0, uu_index = 0, uu_size = sz, uu_pbits = 0\<rparr>)"

definition unsigned_pop ::
  "('a::len word) unsigned_bit_unpacker_impl
     \<Rightarrow> (error + 'a word) \<times> ('a word) unsigned_bit_unpacker_impl" where
  "unsigned_pop st =
     (if uu_index st = uu_size st then (Inl out_of_range, st)
      else
        (Inr (uu_value st AND uu_mask st),
         st\<lparr>uu_index := uu_index st + 1,
            uu_value := drop_bit (uu_pbits st) (uu_value st)\<rparr>))"

subsection \<open>Popping a sequence of values\<close>

text \<open>The loop \<open>for (...) bu >> x;\<close> of every user of the unpacker: \<open>k\<close> pops in order.\<close>

fun signed_pop_n ::
  "('a::len word) signed_bit_unpacker_impl \<Rightarrow> nat \<Rightarrow> error + 'a word list" where
  "signed_pop_n st 0 = Inr []"
| "signed_pop_n st (Suc k) =
     (case signed_pop st of
        (Inl e, _) \<Rightarrow> Inl e
      | (Inr x, st') \<Rightarrow> (case signed_pop_n st' k of Inl e \<Rightarrow> Inl e | Inr xs \<Rightarrow> Inr (x # xs)))"

fun unsigned_pop_n ::
  "('a::len word) unsigned_bit_unpacker_impl \<Rightarrow> nat \<Rightarrow> error + 'a word list" where
  "unsigned_pop_n st 0 = Inr []"
| "unsigned_pop_n st (Suc k) =
     (case unsigned_pop st of
        (Inl e, _) \<Rightarrow> Inl e
      | (Inr x, st') \<Rightarrow> (case unsigned_pop_n st' k of Inl e \<Rightarrow> Inl e | Inr xs \<Rightarrow> Inr (x # xs)))"

definition signed_unpack :: "'a::len word \<Rightarrow> nat \<Rightarrow> error + 'a word list" where
  "signed_unpack n sz =
     (case signed_bit_unpacker n sz of Inl e \<Rightarrow> Inl e | Inr st \<Rightarrow> signed_pop_n st sz)"

definition unsigned_unpack :: "'a::len word \<Rightarrow> nat \<Rightarrow> error + 'a word list" where
  "unsigned_unpack n sz =
     (case unsigned_bit_unpacker n sz of Inl e \<Rightarrow> Inl e | Inr st \<Rightarrow> unsigned_pop_n st sz)"

subsection \<open>Positional values\<close>

text \<open>
  The mathematical value of a packed word, used to state what the packer computes:
  \<open>pval p [x\<^sub>0, x\<^sub>1, \<dots>] = x\<^sub>0 + x\<^sub>1 \<cdot> 2\<^sup>p + \<dots>\<close>, and the \<open>i\<close>-th group of
  \<open>p\<close> bits of an integer.
\<close>

fun pval :: "nat \<Rightarrow> int list \<Rightarrow> int" where
  "pval p [] = 0"
| "pval p (x # xs) = x + 2 ^ p * pval p xs"

definition digit :: "nat \<Rightarrow> nat \<Rightarrow> int \<Rightarrow> int" where
  "digit p i u = take_bit p (drop_bit (p * i) u)"

definition signed_slot_bits :: "nat \<Rightarrow> nat \<Rightarrow> nat" where
  "signed_slot_bits n k = (if k = 1 then n else signed_pbits n k)"

text \<open>The least and greatest (mathematical) value of \<open>k\<close> signed slots of \<open>p\<close> bits.\<close>

definition signed_packed_min :: "nat \<Rightarrow> nat \<Rightarrow> int" where
  "signed_packed_min p k = pval p (replicate k (- (2 ^ (p - 1))))"

definition signed_packed_max :: "nat \<Rightarrow> nat \<Rightarrow> int" where
  "signed_packed_max p k = pval p (replicate k (2 ^ (p - 1) - 1))"

subsection \<open>\<open>bit_packer\<close> and \<open>bit_unpacker\<close>\<close>

text \<open>
  The classes \<open>bit_packer<T>\<close> and \<open>bit_unpacker<T>\<close> select the signed or the unsigned
  implementation with \<open>is_signed_v<T>\<close>; here the signedness of \<open>T\<close> is the flag \<open>sg\<close>.
\<close>

definition bit_pack :: "bool \<Rightarrow> nat \<Rightarrow> ('a::len word) list \<Rightarrow> error + 'a word" where
  "bit_pack sg sz xs = (if sg then signed_pack sz xs else unsigned_pack sz xs)"

definition bit_unpack :: "bool \<Rightarrow> 'a::len word \<Rightarrow> nat \<Rightarrow> error + 'a word list" where
  "bit_unpack sg n sz = (if sg then signed_unpack n sz else unsigned_unpack n sz)"

text \<open>The value of a word of a signed, respectively unsigned, type.\<close>

definition to_int :: "bool \<Rightarrow> 'a::len word \<Rightarrow> int" where
  "to_int sg x = (if sg then sint x else uint x)"

section \<open>Packed monomials, polynomials and the two multipliers\<close>

text \<open>
  Modelled from the spec: the packed monomial, the polynomial container, the symbol-set
  interface, \<open>poly_mul_impl_simple\<close> and \<open>poly_mul_impl_mt_hm\<close> live in
  piranha/polynomials/packed_monomial.hpp, piranha/polynomials/polynomial.hpp and
  piranha/symbols.hpp, which test/polynomials_polynomial.cpp and
  test/polynomials_polynomial_02.cpp exercise.  The definitions of this section follow
  sections 3 and 4.B to 4.F of the spec; the packing and unpacking they use are the
  functions of the header above.
\<close>

subsection \<open>Packed monomial (spec 4.B)\<close>

text \<open>
  Modelled from the spec: \<open>monomial_multiply(a, b)\<close>: "unpack both to vectors (length \<open>k\<close>),
  add element-wise into a vector of the same signedness with overflow checks, repack.
  Signals \<open>OverflowError\<close> if any slot sum escapes \<open>[lo, hi]\<close> for arity \<open>k\<close>."
  The checked addition fails when the sum of the two values is not the value of the
  wrapped sum; the repacking fails in \<open>operator<<\<close> of the packer.
\<close>

definition checked_add :: "bool \<Rightarrow> 'a::len word \<Rightarrow> 'a word \<Rightarrow> error + 'a word" where
  "checked_add sg x y =
     (if to_int sg (x + y) = to_int sg x + to_int sg y then Inr (x + y) else Inl overflow_error)"

fun add_exponents :: "bool \<Rightarrow> ('a::len word) list \<Rightarrow> 'a word list \<Rightarrow> error + 'a word list" where
  "add_exponents sg (x # xs) (y # ys) =
     (case checked_add sg x y of
        Inl e \<Rightarrow> Inl e
      | Inr z \<Rightarrow> (case add_exponents sg xs ys of Inl e \<Rightarrow> Inl e | Inr zs \<Rightarrow> Inr (z # zs)))"
| "add_exponents sg xs ys = Inr []"

definition monomial_multiply :: "bool \<Rightarrow> nat \<Rightarrow> 'a::len word \<Rightarrow> 'a word \<Rightarrow> error + 'a word" where
  "monomial_multiply sg k a b =
     (case bit_unpack sg a k of
        Inl e \<Rightarrow> Inl e
      | Inr xs \<Rightarrow>
          (case bit_unpack sg b k of
             Inl e \<Rightarrow> Inl e
           | Inr ys \<Rightarrow>
               (case add_exponents sg xs ys of
                  Inl e \<Rightarrow> Inl e
                | Inr zs \<Rightarrow> bit_pack sg k zs)))"

text \<open>
  Modelled from the spec: \<open>partial_degree(m, idx_set)\<close>: "sum of exponents at the specified
  indices of the symbol set", as an arbitrary-precision integer.
\<close>

definition partial_degree :: "bool \<Rightarrow> nat \<Rightarrow> 'a::len word \<Rightarrow> nat list \<Rightarrow> error + int" where
  "partial_degree sg k m idx =
     (case bit_unpack sg m k of
        Inl e \<Rightarrow> Inl e
      | Inr xs \<Rightarrow> Inr (sum_list (map (\<lambda>i. to_int sg (xs ! i)) (filter (\<lambda>i. i < length xs) idx))))"

text \<open>
  Modelled from the spec: \<open>idx(S)\<close>, the positions in the symbol set \<open>ss\<close> of the symbols
  of \<open>S\<close> ("exponents outside \<open>S\<close> do not count").
\<close>

definition symbol_idx :: "string list \<Rightarrow> string list \<Rightarrow> nat list" where
  "symbol_idx ss S = filter (\<lambda>i. ss ! i \<in> set S) [0 ..< length ss]"

subsection \<open>Polynomial container (spec 3 and 4.D)\<close>

text \<open>
  Modelled from the spec: a polynomial has a symbol set, a segment count \<open>2\<^sup>n\<close> (the
  member \<open>n_segments\<close> is \<open>n\<close>) and one hash table per segment; a table is a list of
  (monomial, coefficient) entries, a monomial \<open>m\<close> resides in segment
  \<open>hash(m) mod 2\<^sup>n\<close>.  The hash is any function of the packed word.
\<close>

record ('m, 'c) polynomial =
  symbol_set :: "string list"
  n_segments :: nat
  segments :: "('m \<times> 'c) list list"

definition poly_terms :: "('m, 'c) polynomial \<Rightarrow> ('m \<times> 'c) list" where
  "poly_terms p = concat (segments p)"

definition clear_terms :: "('m, 'c) polynomial \<Rightarrow> ('m, 'c) polynomial" where
  "clear_terms p = p\<lparr>segments := replicate (2 ^ n_segments p) []\<rparr>"

text \<open>
  Modelled from the spec: \<open>insert_or_accumulate(m, c)\<close> on one table: "If a term with the
  same \<open>m\<close> exists, replace its coefficient by \<open>c_old + c\<close>; if the sum is zero in the
  coefficient ring, remove the entry.  Otherwise insert \<open>(m, c)\<close>, unless \<open>c\<close> is zero."
\<close>

definition table_insert_or_accumulate ::
  "('m \<times> 'c::comm_ring_1) list \<Rightarrow> 'm \<Rightarrow> 'c \<Rightarrow> ('m \<times> 'c) list" where
  "table_insert_or_accumulate ts m c =
     (case map_of ts m of
        Some c_old \<Rightarrow>
          (if c_old + c = 0 then AList.delete m ts else AList.update m (c_old + c) ts)
      | None \<Rightarrow> (if c = 0 then ts else ts @ [(m, c)]))"

text \<open>"Compute \<open>seg = hash(m) mod 2\<^sup>n\<close>" and work on the table of that segment.\<close>

definition insert_or_accumulate ::
  "('m \<Rightarrow> nat) \<Rightarrow> ('m, 'c::comm_ring_1) polynomial \<Rightarrow> 'm \<Rightarrow> 'c \<Rightarrow> ('m, 'c) polynomial" where
  "insert_or_accumulate hash p m c =
     (let seg = hash m mod 2 ^ n_segments p in
      p\<lparr>segments := (segments p)[seg := table_insert_or_accumulate (segments p ! seg) m c]\<rparr>)"

subsection \<open>The product of two terms under a truncation bound\<close>

text \<open>
  Modelled from the spec: "compute \<open>m = m_f \<cdot> m_g\<close> and \<open>c = c_f \<cdot> c_g\<close>, apply the
  truncation predicate if present": the product monomial "is retained iff
  \<open>partial_degree(m, idx(S)) \<le> d\<close>".  The result \<open>None\<close> is a product dropped by the
  truncation.  The bound is \<open>Some (d, idx)\<close> with the positions \<open>idx\<close> already computed.
\<close>

definition mul_term ::
  "bool \<Rightarrow> nat \<Rightarrow> (int \<times> nat list) option \<Rightarrow> ('a::len word \<times> 'c::comm_ring_1)
     \<Rightarrow> ('a word \<times> 'c) \<Rightarrow> error + ('a word \<times> 'c) option" where
  "mul_term sg k tr tf tg =
     (case monomial_multiply sg k (fst tf) (fst tg) of
        Inl e \<Rightarrow> Inl e
      | Inr m \<Rightarrow>
          (case tr of
             None \<Rightarrow> Inr (Some (m, snd tf * snd tg))
           | Some (d, idx) \<Rightarrow>
               (case partial_degree sg k m idx of
                  Inl e \<Rightarrow> Inl e
                | Inr pd \<Rightarrow> if pd \<le> d then Inr (Some (m, snd tf * snd tg)) else Inr None)))"

text \<open>
  Modelled from the spec: the truncation argument \<open>[d, S]\<close> of both multipliers, "\<open>S\<close>
  defaulting to the full symbol set when \<open>d\<close> is given but \<open>S\<close> is omitted".
\<close>

definition truncation_idx ::
  "string list \<Rightarrow> (int \<times> string list option) option \<Rightarrow> (int \<times> nat list) option" where
  "truncation_idx ss tr =
     (case tr of
        None \<Rightarrow> None
      | Some (d, None) \<Rightarrow> Some (d, [0 ..< length ss])
      | Some (d, Some S) \<Rightarrow> Some (d, symbol_idx ss S))"

subsection \<open>Simple multiplier (spec 4.E)\<close>

text \<open>
  Modelled from the spec: "iterate over pairs \<open>(t_f, t_g)\<close>, compute \<open>m = m_f \<cdot> m_g\<close> and
  \<open>c = c_f \<cdot> c_g\<close>, apply the truncation predicate if present, then
  \<open>insert_or_accumulate(m, c)\<close>"; it "signals \<open>OverflowError\<close> if any monomial
  multiplication overflows the packed representation", and "a failed operation leaves
  the destination polynomial empty".  The arity is the size of the symbol set of the
  destination \<open>h\<close>, which is empty on entry.
\<close>

fun simple_inner ::
  "('a::len word \<Rightarrow> nat) \<Rightarrow> bool \<Rightarrow> nat \<Rightarrow> (int \<times> nat list) option
     \<Rightarrow> ('a word, 'c::comm_ring_1) polynomial \<Rightarrow> ('a word \<times> 'c) \<Rightarrow> ('a word \<times> 'c) list
     \<Rightarrow> error + ('a word, 'c) polynomial" where
  "simple_inner hash sg k tr h tf [] = Inr h"
| "simple_inner hash sg k tr h tf (tg # gs) =
     (case mul_term sg k tr tf tg of
        Inl e \<Rightarrow> Inl e
      | Inr None \<Rightarrow> simple_inner hash sg k tr h tf gs
      | Inr (Some (m, c)) \<Rightarrow> simple_inner hash sg k tr (insert_or_accumulate hash h m c) tf gs)"

fun simple_outer ::
  "('a::len word \<Rightarrow> nat) \<Rightarrow> bool \<Rightarrow> nat \<Rightarrow> (int \<times> nat list) option
     \<Rightarrow> ('a word, 'c::comm_ring_1) polynomial \<Rightarrow> ('a word \<times> 'c) list \<Rightarrow> ('a word \<times> 'c) list
     \<Rightarrow> error + ('a word, 'c) polynomial" where
  "simple_outer hash sg k tr h [] gs = Inr h"
| "simple_outer hash sg k tr h (tf # fs) gs =
     (case simple_inner hash sg k tr h tf gs of
        Inl e \<Rightarrow> Inl e
      | Inr h' \<Rightarrow> simple_outer hash sg k tr h' fs gs)"

definition mul_simple ::
  "('a::len word \<Rightarrow> nat) \<Rightarrow> bool \<Rightarrow> ('a word, 'c::comm_ring_1) polynomial
     \<Rightarrow> ('a word, 'c) polynomial \<Rightarrow> ('a word, 'c) polynomial
     \<Rightarrow> (int \<times> string list option) option \<Rightarrow> error option \<times> ('a word, 'c) polynomial" where
  "mul_simple hash sg h f g tr =
     (let k = length (symbol_set h);
          tr' = truncation_idx (symbol_set h) tr
      in case simple_outer hash sg k tr' h (poly_terms f) (poly_terms g) of
           Inl e \<Rightarrow> (Some e, clear_terms h)
         | Inr h' \<Rightarrow> (None, h'))"

subsection \<open>Parallel segmented multiplier (spec 4.F)\<close>

text \<open>
  Modelled from the spec: the overflow pre-check.  "For every slot position, compute the
  sum of the maxima [\<dots>] and the minima [\<dots>] unpacked exponents [of \<open>f\<close> and of \<open>g\<close>] and
  verify that the per-slot \<open>[lo, hi]\<close> bound at the operand arity is respected for any
  pairwise product.  If a violation is possible, signal \<open>OverflowError\<close> eagerly."
  The bound \<open>[lo, hi]\<close> is the range \<open>[m_min, m_max]\<close> of a packer of the operand arity.
  With an operand without terms there is no pairwise product and nothing is checked.
\<close>

fun unpack_all :: "bool \<Rightarrow> nat \<Rightarrow> ('a::len word \<times> 'c) list \<Rightarrow> error + 'a word list list" where
  "unpack_all sg k [] = Inr []"
| "unpack_all sg k (t # ts) =
     (case bit_unpack sg (fst t) k of
        Inl e \<Rightarrow> Inl e
      | Inr xs \<Rightarrow> (case unpack_all sg k ts of Inl e \<Rightarrow> Inl e | Inr xss \<Rightarrow> Inr (xs # xss)))"

definition slot_limits :: "bool \<Rightarrow> 'a::len itself \<Rightarrow> nat \<Rightarrow> error + (int \<times> int)" where
  "slot_limits sg T k =
     (if sg then
        (case (signed_bit_packer k :: error + ('a word) signed_bit_packer_impl) of
           Inl e \<Rightarrow> Inl e
         | Inr st \<Rightarrow> Inr (sint (sp_min st), sint (sp_max st)))
      else
        (case (unsigned_bit_packer k :: error + ('a word) unsigned_bit_packer_impl) of
           Inl e \<Rightarrow> Inl e
         | Inr st \<Rightarrow> Inr (0, uint (up_max st))))"

definition slot_min :: "bool \<Rightarrow> ('a::len word) list list \<Rightarrow> nat \<Rightarrow> int" where
  "slot_min sg xss i = Min (set (map (\<lambda>xs. to_int sg (xs ! i)) xss))"

definition slot_max :: "bool \<Rightarrow> ('a::len word) list list \<Rightarrow> nat \<Rightarrow> int" where
  "slot_max sg xss i = Max (set (map (\<lambda>xs. to_int sg (xs ! i)) xss))"

definition overflow_pre_check ::
  "bool \<Rightarrow> nat \<Rightarrow> ('a::len word \<times> 'c) list \<Rightarrow> ('a word \<times> 'c) list \<Rightarrow> error option" where
  "overflow_pre_check sg k fs gs =
     (if fs = [] \<or> gs = [] then None
      else
        (case unpack_all sg k fs of
           Inl e \<Rightarrow> Some e
         | Inr xss \<Rightarrow>
             (case unpack_all sg k gs of
                Inl e \<Rightarrow> Some e
              | Inr yss \<Rightarrow>
                  (case slot_limits sg TYPE('a) k of
                     Inl e \<Rightarrow> Some e
                   | Inr (lo, hi) \<Rightarrow>
                       if list_all (\<lambda>i. lo \<le> slot_min sg xss i + slot_min sg yss i
                                        \<and> slot_max sg xss i + slot_max sg yss i \<le> hi) [0 ..< k]
                       then None else Some overflow_error))))"

text \<open>
  Modelled from the spec: the work of the owner of output segment \<open>seg\<close>: "each worker
  independently scan[s] the full cross product and drop[s] pairs not targeted at its
  segments"; "a pair \<open>(t_f, t_g)\<close> contributes to segment \<open>hash(m_f \<cdot> m_g) mod 2\<^sup>n\<close>";
  "each worker maintains a local [\<dots>] hash map.  Collisions combine coefficients; zero
  sums remove"; the truncation is "applied at the innermost level, before insertion,
  identically to the simple multiplier".  A segment is owned by exactly one worker and
  the operands are read-only, so the table of a segment does not depend on the schedule.
\<close>

fun segment_inner ::
  "('a::len word \<Rightarrow> nat) \<Rightarrow> bool \<Rightarrow> nat \<Rightarrow> (int \<times> nat list) option \<Rightarrow> nat \<Rightarrow> nat
     \<Rightarrow> ('a word \<times> 'c::comm_ring_1) list \<Rightarrow> ('a word \<times> 'c) \<Rightarrow> ('a word \<times> 'c) list
     \<Rightarrow> error + ('a word \<times> 'c) list" where
  "segment_inner hash sg k tr n seg tab tf [] = Inr tab"
| "segment_inner hash sg k tr n seg tab tf (tg # gs) =
     (case mul_term sg k tr tf tg of
        Inl e \<Rightarrow> Inl e
      | Inr None \<Rightarrow> segment_inner hash sg k tr n seg tab tf gs
      | Inr (Some (m, c)) \<Rightarrow>
          if hash m mod 2 ^ n = seg
          then segment_inner hash sg k tr n seg (table_insert_or_accumulate tab m c) tf gs
          else segment_inner hash sg k tr n seg tab tf gs)"

fun segment_outer ::
  "('a::len word \<Rightarrow> nat) \<Rightarrow> bool \<Rightarrow> nat \<Rightarrow> (int \<times> nat list) option \<Rightarrow> nat \<Rightarrow> nat
     \<Rightarrow> ('a word \<times> 'c::comm_ring_1) list \<Rightarrow> ('a word \<times> 'c) list \<Rightarrow> ('a word \<times> 'c) list
     \<Rightarrow> error + ('a word \<times> 'c) list" where
  "segment_outer hash sg k tr n seg tab [] gs = Inr tab"
| "segment_outer hash sg k tr n seg tab (tf # fs) gs =
     (case segment_inner hash sg k tr n seg tab tf gs of
        Inl e \<Rightarrow> Inl e
      | Inr tab' \<Rightarrow> segment_outer hash sg k tr n seg tab' fs gs)"

text \<open>The join of the workers: the tables of all segments, or the first error.\<close>

fun collect_segments :: "(error + 't) list \<Rightarrow> error + 't list" where
  "collect_segments [] = Inr []"
| "collect_segments (r # rs) =
     (case r of
        Inl e \<Rightarrow> Inl e
      | Inr t \<Rightarrow> (case collect_segments rs of Inl e \<Rightarrow> Inl e | Inr ts \<Rightarrow> Inr (t # ts)))"

text \<open>
  Modelled from the spec: one invocation, \<open>PreCheck \<rightarrow> Partition \<rightarrow> Accumulate \<rightarrow> Merge\<close>.
  "Failures in PreCheck leave \<open>h\<close> unchanged and empty.  Failures during Accumulate
  [\<dots>] leave \<open>h\<close> in an empty state and surface the error."  Segment selection: "if the
  caller has set a non-zero \<open>n_segments\<close>, honor it", otherwise the multiplier selects a
  count from an estimate; the selected exponent is the argument \<open>n_est\<close>.  After the
  join "the segments are stitched into \<open>h\<close> without further rehashing".
\<close>

definition mul_mt_hm ::
  "('a::len word \<Rightarrow> nat) \<Rightarrow> bool \<Rightarrow> nat \<Rightarrow> ('a word, 'c::comm_ring_1) polynomial
     \<Rightarrow> ('a word, 'c) polynomial \<Rightarrow> ('a word, 'c) polynomial
     \<Rightarrow> (int \<times> string list option) option \<Rightarrow> error option \<times> ('a word, 'c) polynomial" where
  "mul_mt_hm hash sg n_est h f g tr =
     (let k = length (symbol_set h);
          tr' = truncation_idx (symbol_set h) tr
      in case overflow_pre_check sg k (poly_terms f) (poly_terms g) of
           Some e \<Rightarrow> (Some e, h)
         | None \<Rightarrow>
             (let n = (if n_segments h \<noteq> 0 then n_segments h else n_est) in
              case collect_segments
                     (map (\<lambda>seg. segment_outer hash sg k tr' n seg [] (poly_terms f) (poly_terms g))
                        [0 ..< 2 ^ n]) of
                Inl e \<Rightarrow> (Some e, clear_terms h)
              | Inr tabs \<Rightarrow> (None, h\<lparr>n_segments := n, segments := tabs\<rparr>)))"

text \<open>
  The slot width, the slot range and the admissible sizes of a packer, by signedness;
  they restate what the constructors compute, for use in the statements below.
\<close>

definition slot_bits :: "bool \<Rightarrow> nat \<Rightarrow> nat \<Rightarrow> nat" where
  "slot_bits sg n k = (if sg then signed_slot_bits n k else n div k)"

definition slot_lo :: "bool \<Rightarrow> nat \<Rightarrow> int" where
  "slot_lo sg p = (if sg then - (2 ^ (p - 1)) else 0)"

definition slot_hi :: "bool \<Rightarrow> nat \<Rightarrow> int" where
  "slot_hi sg p = (if sg then 2 ^ (p - 1) - 1 else 2 ^ p - 1)"

definition in_slot :: "bool \<Rightarrow> nat \<Rightarrow> int \<Rightarrow> bool" where
  "in_slot sg p x \<longleftrightarrow> slot_lo sg p \<le> x \<and> x \<le> slot_hi sg p"

definition valid_arity :: "bool \<Rightarrow> nat \<Rightarrow> nat \<Rightarrow> bool" where
  "valid_arity sg n k \<longleftrightarrow> (if sg then k < n else k \<le> n)"

text \<open>
  A word is a valid monomial of arity \<open>k\<close> when it can be unpacked; its exponent vector is
  the vector of the values of the unpacked words.
\<close>

definition valid_mono :: "bool \<Rightarrow> nat \<Rightarrow> 'a::len word \<Rightarrow> bool" where
  "valid_mono sg k m = (case bit_unpack sg m k of Inl e \<Rightarrow> False | Inr xs \<Rightarrow> True)"

definition mono_exps :: "bool \<Rightarrow> nat \<Rightarrow> 'a::len word \<Rightarrow> int list" where
  "mono_exps sg k m = (case bit_unpack sg m k of Inl e \<Rightarrow> [] | Inr xs \<Rightarrow> map (to_int sg) xs)"

text \<open>
  The meaning of a table and of a polynomial: the coefficient of every monomial (zero when
  the monomial is absent), and the invariants of section 3 of the spec (no two entries
  with equal monomials, no zero coefficient, every monomial in the segment of its hash).
\<close>

definition table_coef :: "('m \<times> 'c::comm_ring_1) list \<Rightarrow> 'm \<Rightarrow> 'c" where
  "table_coef ts m = (case map_of ts m of None \<Rightarrow> 0 | Some c \<Rightarrow> c)"

definition table_ok :: "('m \<times> 'c::comm_ring_1) list \<Rightarrow> bool" where
  "table_ok ts \<longleftrightarrow> distinct (map fst ts) \<and> (\<forall>t\<in>set ts. snd t \<noteq> 0)"

definition poly_coef :: "('m \<Rightarrow> nat) \<Rightarrow> ('m, 'c::comm_ring_1) polynomial \<Rightarrow> 'm \<Rightarrow> 'c" where
  "poly_coef hash p m = table_coef (segments p ! (hash m mod 2 ^ n_segments p)) m"

definition poly_ok :: "('m \<Rightarrow> nat) \<Rightarrow> ('m, 'c::comm_ring_1) polynomial \<Rightarrow> bool" where
  "poly_ok hash p \<longleftrightarrow>
     length (segments p) = 2 ^ n_segments p
     \<and> (\<forall>seg < 2 ^ n_segments p.
          table_ok (segments p ! seg)
          \<and> (\<forall>t\<in>set (segments p ! seg). hash (fst t) mod 2 ^ n_segments p = seg))"

text \<open>The sum of the coefficients that a list of product terms contributes to a monomial.\<close>

definition csum :: "('m \<times> 'c::comm_ring_1) list \<Rightarrow> 'm \<Rightarrow> 'c" where
  "csum ps m = sum_list (map snd (filter (\<lambda>t. fst t = m) ps))"

text \<open>
  Two valid monomials fit when every slot sum lies in the slot range; the partial degree
  of a valid monomial; whether the truncation keeps a monomial; the product terms of
  two terms and of two lists of terms, in the order in which the loops visit the pairs.
\<close>

definition pair_fits :: "bool \<Rightarrow> nat \<Rightarrow> 'a::len word \<Rightarrow> 'a word \<Rightarrow> bool" where
  "pair_fits sg k a b =
     list_all (\<lambda>(x, y). in_slot sg (slot_bits sg LENGTH('a) k) (x + y))
       (zip (mono_exps sg k a) (mono_exps sg k b))"

definition pdeg :: "bool \<Rightarrow> nat \<Rightarrow> 'a::len word \<Rightarrow> nat list \<Rightarrow> int" where
  "pdeg sg k m idx = sum_list (map (\<lambda>i. mono_exps sg k m ! i) (filter (\<lambda>i. i < k) idx))"

definition keeps :: "bool \<Rightarrow> nat \<Rightarrow> (int \<times> nat list) option \<Rightarrow> 'a::len word \<Rightarrow> bool" where
  "keeps sg k tr m = (case tr of None \<Rightarrow> True | Some (d, idx) \<Rightarrow> pdeg sg k m idx \<le> d)"

definition term_product ::
  "bool \<Rightarrow> nat \<Rightarrow> (int \<times> nat list) option \<Rightarrow> ('a::len word \<times> 'c::comm_ring_1)
     \<Rightarrow> ('a word \<times> 'c) \<Rightarrow> ('a word \<times> 'c) list" where
  "term_product sg k tr tf tg =
     (let m = projr (monomial_multiply sg k (fst tf) (fst tg))
      in if keeps sg k tr m then [(m, snd tf * snd tg)] else [])"

definition all_products ::
  "bool \<Rightarrow> nat \<Rightarrow> (int \<times> nat list) option \<Rightarrow> ('a::len word \<times> 'c::comm_ring_1) list
     \<Rightarrow> ('a word \<times> 'c) list \<Rightarrow> ('a word \<times> 'c) list" where
  "all_products sg k tr fs gs =
     concat (map (\<lambda>tf. concat (map (term_product sg k tr tf) gs)) fs)"

definition all_fit ::
  "bool \<Rightarrow> nat \<Rightarrow> ('a::len word \<times> 'c) list \<Rightarrow> ('a word \<times> 'c) list \<Rightarrow> bool" where
  "all_fit sg k fs gs \<longleftrightarrow> (\<forall>tf\<in>set fs. \<forall>tg\<in>set gs. pair_fits sg k (fst tf) (fst tg))"

text \<open>
  The product \<open>f \<cdot> g\<close> of two polynomials as a polynomial in the symbols: the coefficient of
  the exponent vector \<open>e\<close> is the sum of \<open>c_f \<cdot> c_g\<close> over the pairs of terms whose exponent
  vectors add up to \<open>e\<close>.  A (monomial, coefficient) pair is a non-zero term of the product
  when the monomial is a valid packed monomial, the coefficient is the coefficient of its
  exponent vector in \<open>f \<cdot> g\<close>, and that coefficient is not zero.  Neither definition refers
  to the multipliers, to \<open>monomial_multiply\<close> or to the tables.
\<close>

definition product_coef ::
  "bool \<Rightarrow> nat \<Rightarrow> ('a::len word \<times> 'c::comm_ring_1) list \<Rightarrow> ('a word \<times> 'c) list \<Rightarrow> int list \<Rightarrow> 'c" where
  "product_coef sg k fs gs e =
     sum_list (map (\<lambda>tf. sum_list (map (\<lambda>tg.
         if map (\<lambda>(x, y). x + y) (zip (mono_exps sg k (fst tf)) (mono_exps sg k (fst tg))) = e
         then snd tf * snd tg else 0) gs)) fs)"

definition full_product_term ::
  "bool \<Rightarrow> nat \<Rightarrow> ('a::len word \<times> 'c::comm_ring_1) list \<Rightarrow> ('a word \<times> 'c) list
     \<Rightarrow> ('a word \<times> 'c) \<Rightarrow> bool" where
  "full_product_term sg k fs gs t \<longleftrightarrow>
     valid_mono sg k (fst t)
     \<and> snd t = product_coef sg k fs gs (mono_exps sg k (fst t))
     \<and> snd t \<noteq> 0"

text \<open>
  The operands of the test case \<open>polynomial_mul_simple_test_p_truncated\<close> of
  test/polynomials_polynomial_02.cpp: monomials \<open>packed_monomial<long long>\<close> (signed, 64
  bits), coefficients \<open>mppp::integer<1>\<close>, symbol set \<open>{x, y, z}\<close>; the empty destination
  \<open>retval\<close> and the operands \<open>x + y\<close> and \<open>x - y\<close>.  With three slots of 21 bits the
  monomial \<open>x\<close> is the word \<open>1\<close>, \<open>y\<close> is \<open>2\<^sup>2\<^sup>1\<close> and \<open>z\<close> is \<open>2\<^sup>4\<^sup>2\<close>.
\<close>

definition test_retval :: "(64 word, int) polynomial" where
  "test_retval = \<lparr>symbol_set = [''x'', ''y'', ''z''], n_segments = 0, segments = [[]]\<rparr>"

definition test_x_plus_y :: "(64 word, int) polynomial" where
  "test_x_plus_y = \<lparr>symbol_set = [''x'', ''y'', ''z''], n_segments = 0,
                     segments = [[(1, 1), (2097152, 1)]]\<rparr>"

definition test_x_minus_y :: "(64 word, int) polynomial" where
  "test_x_minus_y = \<lparr>symbol_set = [''x'', ''y'', ''z''], n_segments = 0,
                      segments = [[(1, 1), (2097152, - 1)]]\<rparr>"

section \<open>Merging symbols into a key: \<open>obake::key_merge_symbols\<close>\<close>






section \<open>Properties of the positional value\<close>

lemma pval_append: "pval p (xs @ ys) = pval p xs + 2 ^ (p * length xs) * pval p ys"
  by (induction xs) (simp_all add: algebra_simps power_add)

lemma pval_replicate_mask: "pval p (replicate k (2 ^ p - 1)) = 2 ^ (p * k) - 1"
proof (induction k)
  case 0
  then show ?case by simp
next
  case (Suc k)
  have "pval p (replicate (Suc k) (2 ^ p - 1)) = 2 ^ p - 1 + 2 ^ p * (2 ^ (p * k) - 1)"
    using Suc by simp
  also have "\<dots> = 2 ^ (p * Suc k) - 1"
    by (simp add: algebra_simps power_add)
  finally show ?case .
qed

lemma pval_map_add:
  "pval p (map (\<lambda>x. f x + g x) xs) = pval p (map f xs) + pval p (map g xs)"
  by (induction xs) (simp_all add: algebra_simps)

lemma pval_map_const: "pval p (map (\<lambda>x. c) xs) = pval p (replicate (length xs) c)"
  by (induction xs) simp_all

lemma pval_unsigned_bounds:
  "\<forall>x\<in>set xs. 0 \<le> x \<and> x < 2 ^ p \<Longrightarrow> 0 \<le> pval p xs \<and> pval p xs < 2 ^ (p * length xs)"
proof (induction xs)
  case Nil
  then show ?case by simp
next
  case (Cons x xs)
  then have ih: "0 \<le> pval p xs" "pval p xs + 1 \<le> 2 ^ (p * length xs)" and x: "0 \<le> x" "x < 2 ^ p"
    by auto
  have "2 ^ p * (pval p xs + 1) \<le> (2::int) ^ p * 2 ^ (p * length xs)"
    using ih(2) by (intro mult_left_mono) auto
  then have "x + 2 ^ p * pval p xs < 2 ^ p * 2 ^ (p * length xs)"
    using x by (simp add: algebra_simps)
  moreover have "0 \<le> x + 2 ^ p * pval p xs" using x ih by simp
  ultimately show ?case by (simp add: power_add)
qed

lemma pval_signed_bounds:
  assumes "\<forall>x\<in>set xs. - (2 ^ (p - 1)) \<le> x \<and> x < 2 ^ (p - 1)" "0 < p"
  shows "- (2 ^ (p * length xs)) < pval p xs \<and> pval p xs < 2 ^ (p * length xs)"
  using assms(1)
proof (induction xs)
  case Nil
  then show ?case by simp
next
  case (Cons x xs)
  then have ih: "- (2 ^ (p * length xs)) + 1 \<le> pval p xs" "pval p xs + 1 \<le> 2 ^ (p * length xs)"
    and x: "- (2 ^ (p - 1)) \<le> x" "x < 2 ^ (p - 1)"
    by auto
  have pp: "(2::int) ^ p = 2 * 2 ^ (p - 1)" using assms(2) by (cases p) auto
  have pos: "(0::int) < 2 ^ (p - 1)" by simp
  have "2 ^ p * (pval p xs + 1) \<le> (2::int) ^ p * 2 ^ (p * length xs)"
    using ih(2) by (intro mult_left_mono) auto
  then have up: "x + 2 ^ p * pval p xs < 2 ^ p * 2 ^ (p * length xs)"
    using x pp pos by (simp add: algebra_simps)
  have "(2::int) ^ p * (- (2 ^ (p * length xs)) + 1) \<le> 2 ^ p * pval p xs"
    using ih(1) by (intro mult_left_mono) auto
  then have lo: "- (2 ^ p * 2 ^ (p * length xs)) < x + 2 ^ p * pval p xs"
    using x pp pos by (simp add: algebra_simps)
  show ?case using up lo by (simp add: power_add)
qed

lemma digit_moddiv: "(u mod 2 ^ (p * i + p)) div 2 ^ (p * i) = digit p i (u::int)"
  unfolding digit_def
  by (simp add: take_bit_eq_mod[symmetric] drop_bit_eq_div[symmetric] drop_bit_take_bit)

lemma digit_bounds: "0 \<le> digit p i u \<and> digit p i u < 2 ^ p"
  by (simp add: digit_def)

lemma pval_digits: "pval p (map (\<lambda>i. digit p i u) [0..<k]) = take_bit (p * k) u"
proof (induction k)
  case 0
  then show ?case by simp
next
  case (Suc k)
  have "take_bit (p * Suc k) u = take_bit (p * k) u + 2 ^ (p * k) * take_bit p (drop_bit (p * k) u)"
    using bits_ident [of "p * k" "take_bit (p + p * k) u"]
    by (simp add: take_bit_drop_bit push_bit_eq_mult add.commute mult.commute)
  with Suc show ?case by (simp add: pval_append digit_def)
qed

lemma digit_pval:
  assumes "\<forall>x\<in>set xs. 0 \<le> x \<and> x < 2 ^ p" "i < length xs"
  shows "digit p i (pval p xs) = xs ! i"
  using assms
proof (induction xs arbitrary: i)
  case Nil
  then show ?case by simp
next
  case (Cons x xs)
  have x: "0 \<le> x" "x < 2 ^ p" using Cons.prems by auto
  show ?case
  proof (cases i)
    case 0
    have "take_bit p (x + 2 ^ p * pval p xs) = x"
      using x by (simp add: take_bit_eq_mod)
    then show ?thesis using 0 by (simp add: digit_def)
  next
    case (Suc j)
    have "drop_bit (p * Suc j) (x + 2 ^ p * pval p xs) = drop_bit (p * j) (pval p xs)"
    proof -
      have "drop_bit p (x + 2 ^ p * pval p xs) = pval p xs"
        using x by (simp add: drop_bit_eq_div)
      then show ?thesis
        by (metis drop_bit_drop_bit mult_Suc_right add.commute)
    qed
    then show ?thesis using Suc Cons by (simp add: digit_def)
  qed
qed

lemma signed_pbits_bounds:
  assumes "2 \<le> k" "k < n"
  shows "0 < signed_pbits n k" "k * signed_pbits n k < n"
proof -
  have k0: "0 < k" using assms by simp
  have d: "n = k * (n div k) + n mod k" by simp
  have "0 < n div k" using assms by (simp add: div_greater_zero_iff)
  then have q1: "1 \<le> n div k" by simp
  show "0 < signed_pbits n k"
  proof (cases "n mod k = 0")
    case True
    then have "n = k * (n div k)" using d by simp
    then have "n div k \<noteq> 1" using assms by auto
    then have "2 \<le> n div k" using q1 by simp
    then show ?thesis using True by (simp add: signed_pbits_def)
  next
    case False
    then show ?thesis using q1 by (simp add: signed_pbits_def)
  qed
  show "k * signed_pbits n k < n"
  proof (cases "n mod k = 0")
    case True
    then have e: "n = k * (n div k)" using d by simp
    have "k * (n div k - 1) < k * (n div k)" using q1 k0 by simp
    then show ?thesis using True e by (simp add: signed_pbits_def)
  next
    case False
    then have "k * (n div k) < n" using d by linarith
    then show ?thesis using False by (simp add: signed_pbits_def)
  qed
qed

lemma sint_of_int_eq:
  "- (2 ^ (LENGTH('a::len) - 1)) \<le> x \<Longrightarrow> x < 2 ^ (LENGTH('a) - 1)
     \<Longrightarrow> sint (word_of_int x :: 'a word) = x"
  by (simp add: sint_sbintrunc' signed_take_bit_int_eq_self)

lemma uint_of_int_eq:
  "0 \<le> x \<Longrightarrow> x < 2 ^ LENGTH('a::len) \<Longrightarrow> uint (word_of_int x :: 'a word) = x"
  by (simp add: uint_word_of_int)

lemma signed_push_all_ok:
  fixes st :: "('a::len word) signed_bit_packer_impl"
  assumes "\<forall>x\<in>set xs. sp_min st \<le>s x \<and> x \<le>s sp_max st"
    and "sp_index st + length xs \<le> sp_size st"
  shows "signed_push_all st xs =
     (None, st\<lparr>sp_value := sp_value st
                   + 2 ^ sp_cur_shift st * word_of_int (pval (sp_pbits st) (map sint xs)),
               sp_index := sp_index st + length xs,
               sp_cur_shift := sp_cur_shift st + sp_pbits st * length xs\<rparr>)"
  using assms
proof (induction xs arbitrary: st)
  case Nil
  then show ?case by simp
next
  case (Cons x xs)
  let ?st1 = "st\<lparr>sp_value := sp_value st + x * push_bit (sp_cur_shift st) 1,
                   sp_index := sp_index st + 1,
                   sp_cur_shift := sp_cur_shift st + sp_pbits st\<rparr>"
  have rng: "\<not> x <s sp_min st" "\<not> sp_max st <s x"
    using Cons.prems(1) by (auto simp: word_sle_eq word_sless_alt)
  have step: "signed_push st x = (None, ?st1)"
    using rng Cons.prems(2) by (simp add: signed_push_def Let_def)
  have ih: "signed_push_all ?st1 xs =
     (None, ?st1\<lparr>sp_value := sp_value ?st1
                   + 2 ^ sp_cur_shift ?st1 * word_of_int (pval (sp_pbits ?st1) (map sint xs)),
               sp_index := sp_index ?st1 + length xs,
               sp_cur_shift := sp_cur_shift ?st1 + sp_pbits ?st1 * length xs\<rparr>)"
    using Cons.prems by (intro Cons.IH) auto
  have "signed_push_all st (x # xs) = signed_push_all ?st1 xs"
    by (simp add: step)
  also note ih
  also have "(None, ?st1\<lparr>sp_value := sp_value ?st1
                   + 2 ^ sp_cur_shift ?st1 * word_of_int (pval (sp_pbits ?st1) (map sint xs)),
               sp_index := sp_index ?st1 + length xs,
               sp_cur_shift := sp_cur_shift ?st1 + sp_pbits ?st1 * length xs\<rparr>)
     = (None, st\<lparr>sp_value := sp_value st
                   + 2 ^ sp_cur_shift st * word_of_int (pval (sp_pbits st) (map sint (x # xs))),
               sp_index := sp_index st + length (x # xs),
               sp_cur_shift := sp_cur_shift st + sp_pbits st * length (x # xs)\<rparr>)"
    by (simp add: push_bit_eq_mult power_add algebra_simps)
  finally show ?case .
qed

lemma signed_slot_bits_bounds:
  assumes "1 \<le> k" "k < n"
  shows "0 < signed_slot_bits n k" "k * signed_slot_bits n k \<le> n"
    "2 \<le> k \<Longrightarrow> k * signed_slot_bits n k < n"
  using assms signed_pbits_bounds [of k n]
  by (auto simp: signed_slot_bits_def less_imp_le)

lemma signed_bit_packer_Inr:
  fixes st :: "('a::len word) signed_bit_packer_impl"
  assumes "signed_bit_packer k = Inr st" "1 \<le> k"
  shows "k < LENGTH('a)"
    and "st = \<lparr>sp_value = 0, sp_min = - (2 ^ (signed_slot_bits LENGTH('a) k - 1)),
               sp_max = 2 ^ (signed_slot_bits LENGTH('a) k - 1) - 1, sp_index = 0,
               sp_size = k, sp_pbits = signed_slot_bits LENGTH('a) k, sp_cur_shift = 0\<rparr>"
  using assms
  by (auto simp: signed_bit_packer_def Let_def signed_slot_bits_def limits_min_def limits_max_def
      push_bit_eq_mult split: if_splits)

lemma pval_replicate_zero: "pval p (replicate k 0) = 0"
  by (induction k) simp_all

lemma sint_neg_2p:
  assumes "0 < p" "p \<le> LENGTH('a::len)"
  shows "sint (- (2 ^ (p - 1)) :: 'a word) = - (2 ^ (p - 1))"
proof -
  have le: "(2::int) ^ (p - 1) \<le> 2 ^ (LENGTH('a) - 1)"
    using assms by (intro power_increasing) auto
  have pos: "(0::int) < 2 ^ (p - 1)" by simp
  have "sint (word_of_int (- (2 ^ (p - 1))) :: 'a word) = - (2 ^ (p - 1))"
  proof (rule sint_of_int_eq)
    show "- (2 ^ (LENGTH('a) - 1)) \<le> - ((2::int) ^ (p - 1))" using le by linarith
    show "- ((2::int) ^ (p - 1)) < 2 ^ (LENGTH('a) - 1)" using le pos by linarith
  qed
  then show ?thesis by simp
qed

lemma sint_2p_m1:
  assumes "0 < p" "p \<le> LENGTH('a::len)"
  shows "sint (2 ^ (p - 1) - 1 :: 'a word) = 2 ^ (p - 1) - 1"
proof -
  have le: "(2::int) ^ (p - 1) \<le> 2 ^ (LENGTH('a) - 1)"
    using assms by (intro power_increasing) auto
  have pos: "(0::int) < 2 ^ (p - 1)" by simp
  have "sint (word_of_int (2 ^ (p - 1) - 1) :: 'a word) = 2 ^ (p - 1) - 1"
  proof (rule sint_of_int_eq)
    show "- (2 ^ (LENGTH('a) - 1)) \<le> (2::int) ^ (p - 1) - 1" using le pos by linarith
    show "(2::int) ^ (p - 1) - 1 < 2 ^ (LENGTH('a) - 1)" using le by linarith
  qed
  then show ?thesis by simp
qed

lemma signed_slot_range:
  assumes "0 < p" "p \<le> LENGTH('a::len)"
  shows "(- (2 ^ (p - 1)) \<le>s (x :: 'a word) \<and> x \<le>s 2 ^ (p - 1) - 1)
           \<longleftrightarrow> - (2 ^ (p - 1)) \<le> sint x \<and> sint x < 2 ^ (p - 1)"
  unfolding word_sle_eq sint_neg_2p [OF assms] sint_2p_m1 [OF assms] by linarith

lemma pval_signed_bounds_le:
  assumes "\<forall>x\<in>set xs. - (2 ^ (p - 1)) \<le> x \<and> x < 2 ^ (p - 1)" "0 < p" "p * length xs \<le> m"
  shows "- (2 ^ m) < pval p xs \<and> pval p xs < 2 ^ m"
proof -
  have "(2::int) ^ (p * length xs) \<le> 2 ^ m"
    using assms(3) by (intro power_increasing) auto
  then show ?thesis using pval_signed_bounds [OF assms(1,2)] by linarith
qed

section \<open>Range enforcement of the packer\<close>

text \<open>
  Claim C5.  In a packer state with fewer values pushed than its size, pushing a value
  outside the allowed range \<open>[m_min, m_max]\<close> (signed comparison for the signed packer,
  \<open>(m_max, \<dots>)\<close> in unsigned comparison for the unsigned one) throws \<open>overflow_error\<close>,
  and the packer (accumulator, push count, shift cursor and all other members) is
  exactly as it was before the call.
\<close>

theorem packer_range_enforcement:
  "(sp_index st < sp_size st \<and> (n <s sp_min st \<or> sp_max st <s n)
      \<longrightarrow> signed_push st n = (Some overflow_error, st))
   \<and> (up_index ust < up_size ust \<and> up_max ust < m
      \<longrightarrow> unsigned_push ust m = (Some overflow_error, ust))"
  by (simp add: signed_push_def unsigned_push_def)

theorem packer_range_enforcement_witness:
  "signed_bit_packer 3 = Inr \<lparr>sp_value = 0 :: 64 word, sp_min = - 1048576, sp_max = 1048575,
       sp_index = 0, sp_size = 3, sp_pbits = 21, sp_cur_shift = 0\<rparr>
   \<and> signed_push \<lparr>sp_value = 0 :: 64 word, sp_min = - 1048576, sp_max = 1048575,
       sp_index = 0, sp_size = 3, sp_pbits = 21, sp_cur_shift = 0\<rparr> 1048576
     = (Some overflow_error, \<lparr>sp_value = 0, sp_min = - 1048576, sp_max = 1048575,
       sp_index = 0, sp_size = 3, sp_pbits = 21, sp_cur_shift = 0\<rparr>)
   \<and> unsigned_bit_packer 3 = Inr \<lparr>up_value = 0 :: 64 word, up_max = 2097151,
       up_index = 0, up_size = 3, up_pbits = 21, up_cur_shift = 0\<rparr>
   \<and> unsigned_push \<lparr>up_value = 5 :: 64 word, up_max = 2097151,
       up_index = 1, up_size = 3, up_pbits = 21, up_cur_shift = 21\<rparr> 2097152
     = (Some overflow_error, \<lparr>up_value = 5, up_max = 2097151,
       up_index = 1, up_size = 3, up_pbits = 21, up_cur_shift = 21\<rparr>)"
  using packer_range_enforcement
    [of "\<lparr>sp_value = 0 :: 64 word, sp_min = - 1048576, sp_max = 1048575,
       sp_index = 0, sp_size = 3, sp_pbits = 21, sp_cur_shift = 0\<rparr>" 1048576
       "\<lparr>up_value = 5 :: 64 word, up_max = 2097151,
       up_index = 1, up_size = 3, up_pbits = 21, up_cur_shift = 21\<rparr>" 2097152]
  by (simp add: signed_bit_packer_def unsigned_bit_packer_def signed_pbits_def word_sless_alt
      drop_bit_of_minus_1_eq mask_eq_exp_minus_1)

section \<open>The signed packer's arithmetic stays inside the word\<close>

text \<open>
  Claim C7.  For a signed type and a size \<open>k \<ge> 2\<close>, let \<open>k\<close> values in the range of the
  freshly constructed packer be pushed in order.  Before the \<open>i\<close>-th push (\<open>i < k\<close>)
  the first \<open>i\<close> pushes have succeeded, and in the state \<open>st\<close> reached the
  mathematical values of \<open>tmp = T(1) << m_cur_shift\<close> (the shift is below the sign bit),
  of \<open>n * tmp\<close> and of \<open>m_value + n * tmp\<close> all lie in
  \<open>[-2\<^sup>n\<^sup>b\<^sup>i\<^sup>t\<^sup>s\<^sup>-\<^sup>1, 2\<^sup>n\<^sup>b\<^sup>i\<^sup>t\<^sup>s\<^sup>-\<^sup>1)\<close>: no signed operation of \<open>operator<<\<close> overflows.
\<close>

theorem signed_packing_never_overflows:
  fixes st0 :: "('a::len word) signed_bit_packer_impl"
  assumes ctor: "signed_bit_packer k = Inr st0" and k2: "2 \<le> k" and len: "length xs = k"
    and rng: "\<forall>x\<in>set xs. sp_min st0 \<le>s x \<and> x \<le>s sp_max st0" and i: "i < k"
  shows "\<exists>st. signed_push_all st0 (take i xs) = (None, st)
           \<and> sp_cur_shift st < LENGTH('a) - 1
           \<and> - (2 ^ (LENGTH('a) - 1)) \<le> sint (xs ! i) * 2 ^ sp_cur_shift st
           \<and> sint (xs ! i) * 2 ^ sp_cur_shift st < 2 ^ (LENGTH('a) - 1)
           \<and> - (2 ^ (LENGTH('a) - 1)) \<le> sint (sp_value st) + sint (xs ! i) * 2 ^ sp_cur_shift st
           \<and> sint (sp_value st) + sint (xs ! i) * 2 ^ sp_cur_shift st < 2 ^ (LENGTH('a) - 1)"
proof -
  define p where "p = signed_slot_bits LENGTH('a) k"
  have k1: "1 \<le> k" using k2 by simp
  note c = signed_bit_packer_Inr [OF ctor k1]
  have kN: "k < LENGTH('a)" by (rule c(1))
  have st0: "sp_min st0 = - (2 ^ (p - 1))" "sp_max st0 = 2 ^ (p - 1) - 1" "sp_index st0 = 0"
    "sp_size st0 = k" "sp_pbits st0 = p" "sp_cur_shift st0 = 0" "sp_value st0 = 0"
    unfolding p_def by (subst c(2), simp)+
  have p0: "0 < p" and kp: "k * p < LENGTH('a)"
    unfolding p_def using signed_slot_bits_bounds [OF k1 kN] k2 by auto
  have pN: "p \<le> LENGTH('a)"
  proof -
    have "p * 1 \<le> p * k" using k1 by (intro mult_le_mono) auto
    then have "p \<le> k * p" by (simp add: mult.commute)
    then show ?thesis using kp by linarith
  qed
  have rng': "\<forall>x\<in>set xs. - (2 ^ (p - 1)) \<le> sint x \<and> sint x < 2 ^ (p - 1)"
    using rng signed_slot_range [OF p0 pN] unfolding st0 by blast
  let ?V = "pval p (map sint (take i xs))"
  define st where "st = st0\<lparr>sp_value := word_of_int ?V, sp_index := i, sp_cur_shift := p * i\<rparr>"
  have push: "signed_push_all st0 (take i xs) = (None, st)"
  proof -
    have "signed_push_all st0 (take i xs) =
       (None, st0\<lparr>sp_value := sp_value st0
                   + 2 ^ sp_cur_shift st0 * word_of_int (pval (sp_pbits st0) (map sint (take i xs))),
               sp_index := sp_index st0 + length (take i xs),
               sp_cur_shift := sp_cur_shift st0 + sp_pbits st0 * length (take i xs)\<rparr>)"
      using rng i len by (intro signed_push_all_ok) (auto dest: in_set_takeD simp: st0)
    then show ?thesis using i len by (simp add: st0 st_def min_def)
  qed
  have m1: "p * Suc i \<le> LENGTH('a) - 1"
  proof -
    have "p * Suc i \<le> p * k" using i by (intro mult_le_mono) auto
    then have "p * Suc i \<le> k * p" by (simp add: mult.commute)
    then show ?thesis using kp by linarith
  qed
  have shift: "sp_cur_shift st < LENGTH('a) - 1"
    using m1 p0 by (simp add: st_def)
  have Vb: "- (2 ^ (LENGTH('a) - 1)) < ?V \<and> ?V < 2 ^ (LENGTH('a) - 1)"
    using rng' m1 i len
    by (intro pval_signed_bounds_le [OF _ p0]) (auto dest: in_set_takeD)
  have val: "sint (sp_value st) = ?V"
    using Vb by (simp add: st_def sint_of_int_eq)
  have xi: "xs ! i \<in> set xs" using i len by simp
  have prod: "sint (xs ! i) * 2 ^ (p * i) = pval p (replicate i 0 @ [sint (xs ! i)])"
    by (simp add: pval_append pval_replicate_zero)
  have prodb: "- (2 ^ (LENGTH('a) - 1)) < pval p (replicate i 0 @ [sint (xs ! i)])
      \<and> pval p (replicate i 0 @ [sint (xs ! i)]) < 2 ^ (LENGTH('a) - 1)"
    using rng' xi m1 by (intro pval_signed_bounds_le [OF _ p0]) auto
  have sum: "?V + sint (xs ! i) * 2 ^ (p * i) = pval p (map sint (take i xs) @ [sint (xs ! i)])"
    using i len by (simp add: pval_append)
  have sumb: "- (2 ^ (LENGTH('a) - 1)) < pval p (map sint (take i xs) @ [sint (xs ! i)])
      \<and> pval p (map sint (take i xs) @ [sint (xs ! i)]) < 2 ^ (LENGTH('a) - 1)"
    using rng' xi m1 i len
    by (intro pval_signed_bounds_le [OF _ p0]) (auto dest: in_set_takeD)
  have cs: "sp_cur_shift st = p * i" by (simp add: st_def)
  have "- (2 ^ (LENGTH('a) - 1)) \<le> sint (xs ! i) * 2 ^ sp_cur_shift st"
    "sint (xs ! i) * 2 ^ sp_cur_shift st < 2 ^ (LENGTH('a) - 1)"
    "- (2 ^ (LENGTH('a) - 1)) \<le> sint (sp_value st) + sint (xs ! i) * 2 ^ sp_cur_shift st"
    "sint (sp_value st) + sint (xs ! i) * 2 ^ sp_cur_shift st < 2 ^ (LENGTH('a) - 1)"
    using prodb sumb unfolding cs val prod [symmetric] sum [symmetric] by linarith+
  with push shift show ?thesis by blast
qed

theorem signed_packing_never_overflows_witness:
  "signed_bit_packer 3 = Inr \<lparr>sp_value = 0 :: 64 word, sp_min = - 1048576, sp_max = 1048575,
       sp_index = 0, sp_size = 3, sp_pbits = 21, sp_cur_shift = 0\<rparr>
   \<and> (\<exists>st. signed_push_all \<lparr>sp_value = 0 :: 64 word, sp_min = - 1048576, sp_max = 1048575,
              sp_index = 0, sp_size = 3, sp_pbits = 21, sp_cur_shift = 0\<rparr>
              (take 2 [- 1048576, 1048575, - 1048576]) = (None, st)
           \<and> sp_cur_shift st < 64 - 1
           \<and> - (2 ^ (64 - 1)) \<le> sint (- 1048576 :: 64 word) * 2 ^ sp_cur_shift st
           \<and> sint (- 1048576 :: 64 word) * 2 ^ sp_cur_shift st < 2 ^ (64 - 1)
           \<and> - (2 ^ (64 - 1)) \<le> sint (sp_value st) + sint (- 1048576 :: 64 word) * 2 ^ sp_cur_shift st
           \<and> sint (sp_value st) + sint (- 1048576 :: 64 word) * 2 ^ sp_cur_shift st < 2 ^ (64 - 1))"
proof -
  have c: "signed_bit_packer 3 = Inr \<lparr>sp_value = 0 :: 64 word, sp_min = - 1048576, sp_max = 1048575,
       sp_index = 0, sp_size = 3, sp_pbits = 21, sp_cur_shift = 0\<rparr>"
    by (simp add: signed_bit_packer_def signed_pbits_def)
  have r: "\<forall>x\<in>set [- 1048576, 1048575, - 1048576 :: 64 word].
       sp_min \<lparr>sp_value = 0 :: 64 word, sp_min = - 1048576, sp_max = 1048575,
         sp_index = 0, sp_size = 3, sp_pbits = 21, sp_cur_shift = 0\<rparr> \<le>s x
       \<and> x \<le>s sp_max \<lparr>sp_value = 0 :: 64 word, sp_min = - 1048576, sp_max = 1048575,
         sp_index = 0, sp_size = 3, sp_pbits = 21, sp_cur_shift = 0\<rparr>"
    by (simp add: word_sle_eq)
  show ?thesis
    using c signed_packing_never_overflows [OF c _ _ r, of 2] by simp
qed

lemma signed_pack_ok:
  fixes xs :: "('a::len word) list"
  assumes k: "1 \<le> k" "k < LENGTH('a)" and len: "length xs = k"
    and rng: "\<forall>x\<in>set xs. - (2 ^ (signed_slot_bits LENGTH('a) k - 1)) \<le> sint x
                \<and> sint x < 2 ^ (signed_slot_bits LENGTH('a) k - 1)"
  shows "signed_pack k xs = Inr (word_of_int (pval (signed_slot_bits LENGTH('a) k) (map sint xs)))"
proof -
  define p where "p = signed_slot_bits LENGTH('a) k"
  obtain st0 :: "('a word) signed_bit_packer_impl" where ctor: "signed_bit_packer k = Inr st0"
    using k by (cases "k = 1") (auto simp: signed_bit_packer_def Let_def)
  note c = signed_bit_packer_Inr [OF ctor k(1)]
  have st0: "sp_min st0 = - (2 ^ (p - 1))" "sp_max st0 = 2 ^ (p - 1) - 1" "sp_index st0 = 0"
    "sp_size st0 = k" "sp_pbits st0 = p" "sp_cur_shift st0 = 0" "sp_value st0 = 0"
    unfolding p_def by (subst c(2), simp)+
  have p0: "0 < p" and kp: "k * p \<le> LENGTH('a)"
    unfolding p_def using signed_slot_bits_bounds [OF k] by auto
  have pN: "p \<le> LENGTH('a)"
  proof -
    have "p * 1 \<le> p * k" using k(1) by (intro mult_le_mono) auto
    then have "p \<le> k * p" by (simp add: mult.commute)
    then show ?thesis using kp by linarith
  qed
  have rng': "\<forall>x\<in>set xs. sp_min st0 \<le>s x \<and> x \<le>s sp_max st0"
    using rng signed_slot_range [OF p0 pN] unfolding st0 p_def by blast
  have "signed_push_all st0 xs =
       (None, st0\<lparr>sp_value := sp_value st0
                   + 2 ^ sp_cur_shift st0 * word_of_int (pval (sp_pbits st0) (map sint xs)),
               sp_index := sp_index st0 + length xs,
               sp_cur_shift := sp_cur_shift st0 + sp_pbits st0 * length xs\<rparr>)"
    using rng' len by (intro signed_push_all_ok) (auto simp: st0)
  then show ?thesis
    using len by (simp add: signed_pack_def ctor st0 signed_get_def p_def)
qed

lemma upt_shift_Cons: "[i ..< i + Suc m] = i # [Suc i ..< Suc i + m]"
  by (simp add: upt_conv_Cons)

lemma signed_pop_n_ok:
  fixes st :: "('a::len word) signed_bit_unpacker_impl"
  assumes "su_cur_shift st = su_pbits st * su_index st"
    and "su_index st + m \<le> su_size st"
    and "su_pbits st * (su_index st + m) < LENGTH('a)"
  shows "signed_pop_n st m =
     Inr (map (\<lambda>j. word_of_int (digit (su_pbits st) j (uint (su_s_value st))) + su_min st)
            [su_index st ..< su_index st + m])"
  using assms
proof (induction m arbitrary: st)
  case 0
  then show ?case by simp
next
  case (Suc m)
  let ?p = "su_pbits st" and ?i = "su_index st"
  let ?st1 = "st\<lparr>su_index := Suc ?i, su_cur_shift := su_cur_shift st + ?p\<rparr>"
  have sh: "?p * ?i + ?p < LENGTH('a)"
  proof -
    have "?p * Suc ?i \<le> ?p * (?i + Suc m)" by (intro mult_le_mono) auto
    moreover have "?p * Suc ?i = ?p * ?i + ?p" by simp
    ultimately show ?thesis using Suc.prems(3) by linarith
  qed
  then have sh0: "?p * ?i < LENGTH('a)" by simp
  have u1: "uint (2 ^ (?p * ?i + ?p) :: 'a word) = 2 ^ (?p * ?i + ?p)"
    using sh by (intro uint_2p) (simp add: word_2p_lem word_size)
  have u0: "uint (2 ^ (?p * ?i) :: 'a word) = 2 ^ (?p * ?i)"
    using sh0 by (intro uint_2p) (simp add: word_2p_lem word_size)
  have "uint ((su_s_value st mod 2 ^ (?p * ?i + ?p)) div 2 ^ (?p * ?i))
          = digit ?p ?i (uint (su_s_value st))"
    by (simp add: uint_div uint_mod u1 u0 digit_moddiv)
  then have w: "(su_s_value st mod 2 ^ (?p * ?i + ?p)) div 2 ^ (?p * ?i)
          = word_of_int (digit ?p ?i (uint (su_s_value st)))"
    by (metis word_of_int_uint)
  have step: "signed_pop st =
      (Inr (word_of_int (digit ?p ?i (uint (su_s_value st))) + su_min st), ?st1)"
    using Suc.prems(1,2) w by (simp add: signed_pop_def push_bit_eq_mult)
  have "signed_pop_n ?st1 m =
     Inr (map (\<lambda>j. word_of_int (digit (su_pbits ?st1) j (uint (su_s_value ?st1))) + su_min ?st1)
            [su_index ?st1 ..< su_index ?st1 + m])"
    using Suc.prems by (intro Suc.IH) (auto simp: algebra_simps)
  then have ih: "signed_pop_n ?st1 m =
     Inr (map (\<lambda>j. word_of_int (digit ?p j (uint (su_s_value st))) + su_min st)
            [Suc ?i ..< Suc ?i + m])"
    by (simp del: upt_Suc)
  show ?case
    unfolding upt_shift_Cons by (simp add: step ih del: upt_Suc)
qed

lemma pval_replicate_diff:
  "pval p (replicate k a) - pval p (replicate k b) = pval p (replicate k (a - b))"
  by (induction k) (simp_all add: algebra_simps)

lemma pval_map_shift:
  "pval p (map (\<lambda>x. f x + c) xs) = pval p (map f xs) + pval p (replicate (length xs) c)"
  by (induction xs) (simp_all add: algebra_simps)

lemma two_power_pred: "0 < p \<Longrightarrow> (2::int) ^ p = 2 * 2 ^ (p - 1)"
  by (cases p) simp_all

lemma signed_packed_max_min:
  assumes "0 < p"
  shows "signed_packed_max p k - signed_packed_min p k = 2 ^ (p * k) - 1"
proof -
  have "(2::int) ^ (p - 1) - 1 - - (2 ^ (p - 1)) = 2 ^ p - 1"
    using two_power_pred [OF assms] by simp
  then show ?thesis
    unfolding signed_packed_max_def signed_packed_min_def pval_replicate_diff
    by (simp add: pval_replicate_mask)
qed

lemma signed_packed_bounds:
  assumes "0 < p" "p * k \<le> m"
  shows "- (2 ^ m) < signed_packed_min p k" "signed_packed_min p k < 2 ^ m"
    "- (2 ^ m) < signed_packed_max p k" "signed_packed_max p k < 2 ^ m"
  using pval_signed_bounds_le [of "replicate k (- (2 ^ (p - 1)))" p m]
    pval_signed_bounds_le [of "replicate k (2 ^ (p - 1) - 1)" p m] assms
  by (auto simp: signed_packed_min_def signed_packed_max_def)

lemma sbp_minmax_packed_entry_ok:
  assumes "2 \<le> k" "k < LENGTH('a::len)"
  shows "(sbp_minmax_packed_entry k :: error + ('a word \<times> 'a word)) =
     Inr (word_of_int (signed_packed_min (signed_pbits LENGTH('a) k) k),
          word_of_int (signed_packed_max (signed_pbits LENGTH('a) k) k))"
proof -
  define p where "p = signed_pbits LENGTH('a) k"
  have sb: "signed_slot_bits LENGTH('a) k = p" using assms by (simp add: signed_slot_bits_def p_def)
  have k1: "1 \<le> k" using assms by simp
  have p0: "0 < p" and kp: "k * p < LENGTH('a)"
    using signed_pbits_bounds [OF assms] by (auto simp: p_def)
  have pN: "p \<le> LENGTH('a)"
  proof -
    have "p * 1 \<le> p * k" using k1 by (intro mult_le_mono) auto
    then have "p \<le> k * p" by (simp add: mult.commute)
    then show ?thesis using kp by linarith
  qed
  have pos: "(0::int) < 2 ^ (p - 1)" by simp
  have s1: "sint (- (2 ^ (p - 1)) :: 'a word) = - (2 ^ (p - 1))"
    by (rule sint_neg_2p [OF p0 pN])
  have s2: "sint (2 ^ (p - 1) - 1 :: 'a word) = 2 ^ (p - 1) - 1"
    by (rule sint_2p_m1 [OF p0 pN])
  have mn: "signed_pack k (replicate k (- (2 ^ (p - 1)) :: 'a word))
      = Inr (word_of_int (signed_packed_min p k))"
    using signed_pack_ok [OF k1 assms(2), of "replicate k (- (2 ^ (p - 1)))"] pos s1
    by (simp add: sb signed_packed_min_def map_replicate_const)
  have mx: "signed_pack k (replicate k (2 ^ (p - 1) - 1 :: 'a word))
      = Inr (word_of_int (signed_packed_max p k))"
    using signed_pack_ok [OF k1 assms(2), of "replicate k (2 ^ (p - 1) - 1)"] pos s2
    by (simp add: sb signed_packed_max_def map_replicate_const)
  show ?thesis
    unfolding sbp_minmax_packed_entry_def Let_def p_def [symmetric]
    using mn mx by (simp add: push_bit_eq_mult)
qed

lemma sbp_entries_ok:
  assumes "\<forall>j\<in>set js. 1 \<le> j \<and> j + 1 < LENGTH('a::len)"
  shows "(sbp_entries js :: error + ('a word \<times> 'a word) list) =
     Inr (map (\<lambda>j. (word_of_int (signed_packed_min (signed_pbits LENGTH('a) (j + 1)) (j + 1)),
                     word_of_int (signed_packed_max (signed_pbits LENGTH('a) (j + 1)) (j + 1)))) js)"
  using assms
proof (induction js)
  case Nil
  then show ?case by simp
next
  case (Cons j js)
  have "2 \<le> j + 1" "j + 1 < LENGTH('a)" using Cons.prems by auto
  from sbp_minmax_packed_entry_ok [OF this] Cons show ?case by simp
qed

lemma sbp_compute_minmax_packed_total:
  "(sbp_compute_minmax_packed :: error + ('a::len word \<times> 'a word) list) =
     Inr ((limits_min, limits_max) #
          map (\<lambda>j. (word_of_int (signed_packed_min (signed_pbits LENGTH('a) (j + 1)) (j + 1)),
                     word_of_int (signed_packed_max (signed_pbits LENGTH('a) (j + 1)) (j + 1))))
            [1 ..< LENGTH('a) - 1])"
proof -
  have "\<forall>j\<in>set [1 ..< LENGTH('a) - 1]. 1 \<le> j \<and> j + 1 < LENGTH('a)" by auto
  from sbp_entries_ok [OF this] show ?thesis by (simp add: sbp_compute_minmax_packed_def)
qed

lemma sbp_get_mmp_nth:
  assumes "2 \<le> k" "k < LENGTH('a::len)"
  shows "(sbp_get_mmp :: ('a word \<times> 'a word) list) ! (k - 1) =
     (word_of_int (signed_packed_min (signed_pbits LENGTH('a) k) k),
      word_of_int (signed_packed_max (signed_pbits LENGTH('a) k) k))"
proof -
  obtain j where j: "k = Suc (Suc j)" using assms(1) by (metis Suc_le_D numeral_2_eq_2 Suc_le_mono)
  have "j < LENGTH('a) - 1 - 1" using assms(2) j by simp
  then show ?thesis
    unfolding sbp_get_mmp_def sbp_compute_minmax_packed_total j
    by (simp del: upt_Suc)
qed

lemma slot_le_width:
  assumes "1 \<le> (k::nat)" "p * k \<le> n"
  shows "p \<le> n"
proof -
  have "p * 1 \<le> p * k" using assms(1) by (intro mult_le_mono) auto
  then have "p \<le> p * k" by simp
  then show ?thesis using assms(2) by (rule order_trans)
qed

lemma pval_replicate_le:
  "\<forall>x\<in>set xs. a \<le> x \<Longrightarrow> pval p (replicate (length xs) a) \<le> pval p xs"
proof (induction xs)
  case Nil
  then show ?case by simp
next
  case (Cons x xs)
  then have "2 ^ p * pval p (replicate (length xs) a) \<le> 2 ^ p * pval p xs"
    by (intro mult_left_mono) auto
  moreover have "a \<le> x" using Cons.prems by simp
  ultimately have "a + 2 ^ p * pval p (replicate (length xs) a) \<le> x + 2 ^ p * pval p xs"
    by linarith
  then show ?case by simp
qed

lemma pval_replicate_ge:
  "\<forall>x\<in>set xs. x \<le> a \<Longrightarrow> pval p xs \<le> pval p (replicate (length xs) a)"
proof (induction xs)
  case Nil
  then show ?case by simp
next
  case (Cons x xs)
  then have "2 ^ p * pval p xs \<le> 2 ^ p * pval p (replicate (length xs) a)"
    by (intro mult_left_mono) auto
  moreover have "x \<le> a" using Cons.prems by simp
  ultimately have "x + 2 ^ p * pval p xs \<le> a + 2 ^ p * pval p (replicate (length xs) a)"
    by linarith
  then show ?case by simp
qed

lemma pval_inj_unsigned:
  assumes "length xs = length ys" "\<forall>x\<in>set xs. 0 \<le> x \<and> x < 2 ^ p"
    "\<forall>y\<in>set ys. 0 \<le> y \<and> y < 2 ^ p" "pval p xs = pval p ys"
  shows "xs = ys"
proof (rule nth_equalityI)
  show "length xs = length ys" by (rule assms(1))
  fix i assume "i < length xs"
  then show "xs ! i = ys ! i"
    using digit_pval [OF assms(2), of i] digit_pval [OF assms(3), of i] assms(1,4) by simp
qed

lemma pval_inj_signed:
  assumes len: "length xs = length ys" and p: "0 < p"
    and xs: "\<forall>x\<in>set xs. - (2 ^ (p - 1)) \<le> x \<and> x < 2 ^ (p - 1)"
    and ys: "\<forall>y\<in>set ys. - (2 ^ (p - 1)) \<le> y \<and> y < 2 ^ (p - 1)"
    and eq: "pval p xs = pval p ys"
  shows "xs = ys"
proof -
  let ?f = "\<lambda>x::int. x + 2 ^ (p - 1)"
  have "pval p (map ?f xs) = pval p (map ?f ys)"
    using pval_map_shift [of p "\<lambda>x. x" "2 ^ (p - 1)" xs]
      pval_map_shift [of p "\<lambda>x. x" "2 ^ (p - 1)" ys] len eq by simp
  moreover have "\<forall>x\<in>set (map ?f xs). 0 \<le> x \<and> x < 2 ^ p"
    using xs two_power_pred [OF p] by auto
  moreover have "\<forall>x\<in>set (map ?f ys). 0 \<le> x \<and> x < 2 ^ p"
    using ys two_power_pred [OF p] by auto
  ultimately have "map ?f xs = map ?f ys"
    using len by (intro pval_inj_unsigned [of _ _ p]) auto
  moreover have "inj ?f" by (simp add: inj_def)
  ultimately show ?thesis by (simp add: inj_map_eq_map)
qed

lemma signed_bit_unpacker_ge2:
  fixes n :: "'a::len word"
  assumes "2 \<le> k" "k < LENGTH('a)"
  shows "signed_bit_unpacker n k =
     (if sint n < signed_packed_min (signed_pbits LENGTH('a) k) k
          \<or> signed_packed_max (signed_pbits LENGTH('a) k) k < sint n
      then Inl overflow_error
      else Inr \<lparr>su_value = n, su_min = - (2 ^ (signed_pbits LENGTH('a) k - 1)),
                su_s_value = n - word_of_int (signed_packed_min (signed_pbits LENGTH('a) k) k),
                su_index = 0, su_size = k, su_pbits = signed_pbits LENGTH('a) k,
                su_cur_shift = 0\<rparr>)"
proof -
  define p where "p = signed_pbits LENGTH('a) k"
  have p0: "0 < p" and kp: "k * p < LENGTH('a)"
    using signed_pbits_bounds [OF assms] by (auto simp: p_def)
  then have m: "p * k \<le> LENGTH('a) - 1" by (simp add: mult.commute)
  note b = signed_packed_bounds [OF p0 m]
  have s1: "sint (word_of_int (signed_packed_min p k) :: 'a word) = signed_packed_min p k"
    using b by (intro sint_of_int_eq) auto
  have s2: "sint (word_of_int (signed_packed_max p k) :: 'a word) = signed_packed_max p k"
    using b by (intro sint_of_int_eq) auto
  show ?thesis
    using assms s1 s2 sbp_get_mmp_nth [OF assms] unfolding p_def
    by (simp add: signed_bit_unpacker_def Let_def word_sless_alt push_bit_eq_mult)
qed

lemma signed_unpack_accepts:
  fixes n :: "'a::len word"
  assumes k: "1 \<le> k" "k < LENGTH('a)"
    and acc: "2 \<le> k \<longrightarrow> signed_packed_min (signed_pbits LENGTH('a) k) k \<le> sint n
                \<and> sint n \<le> signed_packed_max (signed_pbits LENGTH('a) k) k"
  shows "\<exists>xs. signed_unpack n k = Inr xs \<and> length xs = k
           \<and> (\<forall>x\<in>set xs. - (2 ^ (signed_slot_bits LENGTH('a) k - 1)) \<le> sint x
                \<and> sint x < 2 ^ (signed_slot_bits LENGTH('a) k - 1))
           \<and> word_of_int (pval (signed_slot_bits LENGTH('a) k) (map sint xs)) = n"
proof (cases "k = 1")
  case True
  let ?st = "\<lparr>su_value = n, su_min = n, su_s_value = 0, su_index = 0,
                su_size = 1, su_pbits = 0, su_cur_shift = 0\<rparr>"
  have c: "signed_bit_unpacker n 1 = Inr ?st"
    using k True by (simp add: signed_bit_unpacker_def)
  have "signed_pop_n ?st 1 =
     Inr (map (\<lambda>j. word_of_int (digit (su_pbits ?st) j (uint (su_s_value ?st))) + su_min ?st)
            [su_index ?st ..< su_index ?st + 1])"
    by (rule signed_pop_n_ok) simp_all
  also have "\<dots> = Inr [n]" by (simp add: digit_def)
  finally have pn: "signed_pop_n ?st 1 = Inr [n]" .
  have "signed_unpack n 1 = Inr [n]"
    by (simp only: signed_unpack_def c sum.case pn)
  then have "signed_unpack n k = Inr [n]" using True by simp
  then show ?thesis
    using True sint_ge [of n] sint_lt [of n] by (simp add: signed_slot_bits_def)
next
  case False
  then have k2: "2 \<le> k" using k by simp
  define p where "p = signed_pbits LENGTH('a) k"
  have sb: "signed_slot_bits LENGTH('a) k = p" using False by (simp add: signed_slot_bits_def p_def)
  have p0: "0 < p" and kp: "k * p < LENGTH('a)"
    using signed_pbits_bounds [OF k2 k(2)] by (auto simp: p_def)
  have pk: "p * k < LENGTH('a)" using kp by (simp add: mult.commute)
  have pN: "p \<le> LENGTH('a)"
    using slot_le_width [OF k(1), of p "LENGTH('a)"] pk by simp
  define pmin where "pmin = signed_packed_min p k"
  define pmax where "pmax = signed_packed_max p k"
  define U where "U = sint n - pmin"
  have acc': "pmin \<le> sint n" "sint n \<le> pmax" using acc k2 by (auto simp: pmin_def pmax_def p_def)
  have mm: "pmax - pmin = 2 ^ (p * k) - 1"
    unfolding pmax_def pmin_def by (rule signed_packed_max_min [OF p0])
  have U0: "0 \<le> U" and U1: "U < 2 ^ (p * k)" using acc' mm by (auto simp: U_def)
  have "(2::int) ^ (p * k) \<le> 2 ^ LENGTH('a)"
    using pk by (intro power_increasing) auto
  then have U2: "U < 2 ^ LENGTH('a)" using U1 by linarith
  let ?st = "\<lparr>su_value = n, su_min = - (2 ^ (p - 1)),
                su_s_value = n - word_of_int pmin,
                su_index = 0, su_size = k, su_pbits = p, su_cur_shift = 0\<rparr>"
  have c: "signed_bit_unpacker n k = Inr ?st"
    using acc' unfolding signed_bit_unpacker_ge2 [OF k2 k(2)] p_def [symmetric] pmin_def pmax_def
    by simp
  have "n - word_of_int pmin = (word_of_int (sint n - pmin) :: 'a word)" by simp
  then have u: "uint (n - word_of_int pmin) = U"
    unfolding U_def [symmetric] using U0 U2 by (simp only: uint_of_int_eq)
  define xs :: "'a word list" where
    "xs = map (\<lambda>j. word_of_int (digit p j U) + - (2 ^ (p - 1))) [0 ..< k]"
  have "signed_pop_n ?st k =
     Inr (map (\<lambda>j. word_of_int (digit (su_pbits ?st) j (uint (su_s_value ?st))) + su_min ?st)
            [su_index ?st ..< su_index ?st + k])"
    using pk by (intro signed_pop_n_ok) simp_all
  then have un: "signed_unpack n k = Inr xs"
    by (simp add: signed_unpack_def c u xs_def del: upt_Suc)
  have sx: "sint (word_of_int (digit p j U) + - (2 ^ (p - 1)) :: 'a word) = digit p j U - 2 ^ (p - 1)"
    and rx: "- (2 ^ (p - 1)) \<le> digit p j U - 2 ^ (p - 1)" "digit p j U - 2 ^ (p - 1) < 2 ^ (p - 1)" for j
  proof -
    have d: "0 \<le> digit p j U" "digit p j U < 2 ^ p" using digit_bounds [of p j U] by auto
    show r1: "- (2 ^ (p - 1)) \<le> digit p j U - 2 ^ (p - 1)" using d by simp
    show r2: "digit p j U - 2 ^ (p - 1) < 2 ^ (p - 1)" using d two_power_pred [OF p0] by simp
    have le: "(2::int) ^ (p - 1) \<le> 2 ^ (LENGTH('a) - 1)"
      using pN p0 by (intro power_increasing) auto
    have "sint (word_of_int (digit p j U - 2 ^ (p - 1)) :: 'a word) = digit p j U - 2 ^ (p - 1)"
      using r1 r2 le by (intro sint_of_int_eq) linarith+
    then show "sint (word_of_int (digit p j U) + - (2 ^ (p - 1)) :: 'a word) = digit p j U - 2 ^ (p - 1)"
      by simp
  qed
  have ms: "map sint xs = map (\<lambda>j. digit p j U + - (2 ^ (p - 1))) [0 ..< k]"
    unfolding xs_def using sx by (simp del: upt_Suc)
  have "pval p (map sint xs) = pval p (map (\<lambda>j. digit p j U) [0 ..< k]) + pmin"
    unfolding ms pval_map_shift pmin_def signed_packed_min_def by simp
  also have "\<dots> = U + pmin"
    using U0 U1 by (simp add: pval_digits take_bit_int_eq_self)
  finally have pv: "pval p (map sint xs) = sint n" by (simp add: U_def)
  have rng: "\<forall>x\<in>set xs. - (2 ^ (p - 1)) \<le> sint x \<and> sint x < 2 ^ (p - 1)"
    unfolding xs_def using sx rx by (auto simp del: upt_Suc)
  show ?thesis
    unfolding sb using un rng pv by (intro exI [of _ xs]) (simp add: xs_def)
qed

lemma signed_unpack_pack:
  fixes xs :: "('a::len word) list"
  assumes k: "1 \<le> k" "k < LENGTH('a)" and len: "length xs = k"
    and rng: "\<forall>x\<in>set xs. - (2 ^ (signed_slot_bits LENGTH('a) k - 1)) \<le> sint x
                \<and> sint x < 2 ^ (signed_slot_bits LENGTH('a) k - 1)"
  shows "signed_unpack (word_of_int (pval (signed_slot_bits LENGTH('a) k) (map sint xs)) :: 'a word) k
           = Inr xs"
proof -
  define p where "p = signed_slot_bits LENGTH('a) k"
  define V where "V = pval p (map sint xs)"
  define n :: "'a word" where "n = word_of_int V"
  have p0: "0 < p" unfolding p_def using signed_slot_bits_bounds [OF k] by auto
  have rng': "\<forall>x\<in>set (map sint xs). - (2 ^ (p - 1)) \<le> x \<and> x < 2 ^ (p - 1)"
    using rng by (auto simp: p_def)
  have same: "pval p (map sint ys) = V"
    if ys: "length ys = k" "\<forall>y\<in>set ys. - (2 ^ (p - 1)) \<le> sint y \<and> sint y < 2 ^ (p - 1)"
      "(word_of_int (pval p (map sint ys)) :: 'a word) = n" for ys :: "'a word list"
  proof (cases "k = 1")
    case True
    then obtain y where y: "ys = [y]" using ys(1) by (cases ys) auto
    from True obtain x where x: "xs = [x]" using len by (cases xs) auto
    show ?thesis using ys(3) unfolding n_def V_def x y by simp
  next
    case False
    then have k2: "2 \<le> k" using k by simp
    have "k * p < LENGTH('a)" unfolding p_def using signed_slot_bits_bounds [OF k] k2 by auto
    then have m: "p * k \<le> LENGTH('a) - 1" by (simp add: mult.commute)
    have rys: "\<forall>x\<in>set (map sint ys). - (2 ^ (p - 1)) \<le> x \<and> x < 2 ^ (p - 1)"
      using ys(2) by auto
    have b1: "- (2 ^ (LENGTH('a) - 1)) < V \<and> V < 2 ^ (LENGTH('a) - 1)"
      unfolding V_def using m len by (intro pval_signed_bounds_le [OF rng' p0]) simp
    have b2: "- (2 ^ (LENGTH('a) - 1)) < pval p (map sint ys)
        \<and> pval p (map sint ys) < 2 ^ (LENGTH('a) - 1)"
      using m ys(1) by (intro pval_signed_bounds_le [OF rys p0]) simp
    have "sint (word_of_int (pval p (map sint ys)) :: 'a word) = sint (word_of_int V :: 'a word)"
      using ys(3) by (simp add: n_def)
    then show ?thesis using b1 b2 by (simp add: sint_of_int_eq)
  qed
  have acc: "2 \<le> k \<longrightarrow> signed_packed_min (signed_pbits LENGTH('a) k) k \<le> sint n
                \<and> sint n \<le> signed_packed_max (signed_pbits LENGTH('a) k) k"
  proof
    assume k2: "2 \<le> k"
    then have sb: "signed_pbits LENGTH('a) k = p" by (simp add: p_def signed_slot_bits_def)
    have "k * p < LENGTH('a)" unfolding p_def using signed_slot_bits_bounds [OF k] k2 by auto
    then have m: "p * k \<le> LENGTH('a) - 1" by (simp add: mult.commute)
    have b1: "- (2 ^ (LENGTH('a) - 1)) < V \<and> V < 2 ^ (LENGTH('a) - 1)"
      unfolding V_def using m len by (intro pval_signed_bounds_le [OF rng' p0]) simp
    then have sn: "sint n = V" by (simp add: n_def sint_of_int_eq)
    have "pval p (replicate (length (map sint xs)) (- (2 ^ (p - 1)))) \<le> V"
      unfolding V_def using rng' by (intro pval_replicate_le) auto
    moreover have "V \<le> pval p (replicate (length (map sint xs)) (2 ^ (p - 1) - 1))"
      unfolding V_def using rng' by (intro pval_replicate_ge) auto
    ultimately show "signed_packed_min (signed_pbits LENGTH('a) k) k \<le> sint n
                \<and> sint n \<le> signed_packed_max (signed_pbits LENGTH('a) k) k"
      unfolding sb sn signed_packed_min_def signed_packed_max_def using len by simp
  qed
  from signed_unpack_accepts [OF k acc] obtain ys where
    ys: "signed_unpack n k = Inr ys" "length ys = k"
    "\<forall>y\<in>set ys. - (2 ^ (p - 1)) \<le> sint y \<and> sint y < 2 ^ (p - 1)"
    "(word_of_int (pval p (map sint ys)) :: 'a word) = n"
    unfolding p_def by blast
  have "pval p (map sint ys) = pval p (map sint xs)"
    using same [OF ys(2,3,4)] by (simp add: V_def)
  moreover have "\<forall>x\<in>set (map sint ys). - (2 ^ (p - 1)) \<le> x \<and> x < 2 ^ (p - 1)"
    using ys(3) by auto
  ultimately have "map sint ys = map sint xs"
    using rng' len ys(2) p0 by (intro pval_inj_signed [of _ _ p]) auto
  moreover have "inj (sint :: 'a word \<Rightarrow> int)"
  proof (rule injI)
    fix x y :: "'a word"
    assume "sint x = sint y"
    then have "(word_of_int (sint x) :: 'a word) = word_of_int (sint y)" by simp
    then show "x = y" by simp
  qed
  ultimately have "ys = xs" by (simp add: inj_map_eq_map)
  then show ?thesis using ys(1) by (simp add: n_def V_def p_def)
qed

lemma unsigned_push_all_ok:
  fixes st :: "('a::len word) unsigned_bit_packer_impl"
  assumes "\<forall>x\<in>set xs. x \<le> up_max st"
    and "up_index st + length xs \<le> up_size st"
  shows "unsigned_push_all st xs =
     (None, st\<lparr>up_value := up_value st
                   + 2 ^ up_cur_shift st * word_of_int (pval (up_pbits st) (map uint xs)),
               up_index := up_index st + length xs,
               up_cur_shift := up_cur_shift st + up_pbits st * length xs\<rparr>)"
  using assms
proof (induction xs arbitrary: st)
  case Nil
  then show ?case by simp
next
  case (Cons x xs)
  let ?st1 = "st\<lparr>up_value := up_value st + push_bit (up_cur_shift st) x,
                   up_index := up_index st + 1,
                   up_cur_shift := up_cur_shift st + up_pbits st\<rparr>"
  have rng: "\<not> up_max st < x"
    using Cons.prems(1) by (auto simp: not_less)
  have step: "unsigned_push st x = (None, ?st1)"
    using rng Cons.prems(2) by (simp add: unsigned_push_def)
  have ih: "unsigned_push_all ?st1 xs =
     (None, ?st1\<lparr>up_value := up_value ?st1
                   + 2 ^ up_cur_shift ?st1 * word_of_int (pval (up_pbits ?st1) (map uint xs)),
               up_index := up_index ?st1 + length xs,
               up_cur_shift := up_cur_shift ?st1 + up_pbits ?st1 * length xs\<rparr>)"
    using Cons.prems by (intro Cons.IH) auto
  have "unsigned_push_all st (x # xs) = unsigned_push_all ?st1 xs"
    by (simp add: step)
  also note ih
  also have "(None, ?st1\<lparr>up_value := up_value ?st1
                   + 2 ^ up_cur_shift ?st1 * word_of_int (pval (up_pbits ?st1) (map uint xs)),
               up_index := up_index ?st1 + length xs,
               up_cur_shift := up_cur_shift ?st1 + up_pbits ?st1 * length xs\<rparr>)
     = (None, st\<lparr>up_value := up_value st
                   + 2 ^ up_cur_shift st * word_of_int (pval (up_pbits st) (map uint (x # xs))),
               up_index := up_index st + length (x # xs),
               up_cur_shift := up_cur_shift st + up_pbits st * length (x # xs)\<rparr>)"
    by (simp add: push_bit_eq_mult power_add algebra_simps)
  finally show ?case .
qed

lemma drop_bit_minus_1_mask:
  "p \<le> LENGTH('a::len) \<Longrightarrow> drop_bit (LENGTH('a) - p) (- 1 :: 'a word) = mask p"
  by (simp add: drop_bit_of_minus_1_eq)

lemma uint_mask_le:
  assumes "p \<le> LENGTH('a::len)"
  shows "uint (mask p :: 'a word) = 2 ^ p - 1"
proof -
  have "uint (mask p :: 'a word) = mask (min LENGTH('a) p)" by (rule uint_mask_eq)
  also have "min LENGTH('a) p = p" using assms by simp
  finally show ?thesis by (simp add: mask_eq_exp_minus_1)
qed

lemma word_le_mask_iff:
  assumes "p \<le> LENGTH('a::len)"
  shows "(x :: 'a word) \<le> mask p \<longleftrightarrow> uint x < 2 ^ p"
  unfolding word_le_def uint_mask_le [OF assms] by linarith

lemma unsigned_bit_packer_Inr:
  assumes "1 \<le> k" "k \<le> LENGTH('a::len)"
  shows "(unsigned_bit_packer k :: error + ('a word) unsigned_bit_packer_impl) =
     Inr \<lparr>up_value = 0, up_max = mask (LENGTH('a) div k), up_index = 0,
          up_size = k, up_pbits = LENGTH('a) div k, up_cur_shift = 0\<rparr>"
  using assms by (simp add: unsigned_bit_packer_def Let_def drop_bit_minus_1_mask)

lemma unsigned_pack_ok:
  fixes xs :: "('a::len word) list"
  assumes k: "1 \<le> k" "k \<le> LENGTH('a)" and len: "length xs = k"
    and rng: "\<forall>x\<in>set xs. uint x < 2 ^ (LENGTH('a) div k)"
  shows "unsigned_pack k xs = Inr (word_of_int (pval (LENGTH('a) div k) (map uint xs)))"
proof -
  let ?p = "LENGTH('a) div k"
  let ?st0 = "\<lparr>up_value = 0 :: 'a word, up_max = mask ?p, up_index = 0,
          up_size = k, up_pbits = ?p, up_cur_shift = 0\<rparr>"
  have pN: "?p \<le> LENGTH('a)" by simp
  have rng': "\<forall>x\<in>set xs. x \<le> up_max ?st0"
    using rng by (simp add: word_le_mask_iff [OF pN])
  have "unsigned_push_all ?st0 xs =
       (None, ?st0\<lparr>up_value := up_value ?st0
                   + 2 ^ up_cur_shift ?st0 * word_of_int (pval (up_pbits ?st0) (map uint xs)),
               up_index := up_index ?st0 + length xs,
               up_cur_shift := up_cur_shift ?st0 + up_pbits ?st0 * length xs\<rparr>)"
    using rng' len by (intro unsigned_push_all_ok) auto
  then show ?thesis
    using len by (simp add: unsigned_pack_def unsigned_bit_packer_Inr [OF k] unsigned_get_def)
qed

lemma unsigned_bit_unpacker_Inr:
  fixes n :: "'a::len word"
  assumes "1 \<le> k" "k \<le> LENGTH('a)"
  shows "unsigned_bit_unpacker n k =
     (if uint n < 2 ^ (LENGTH('a) div k * k)
      then Inr \<lparr>uu_value = n, uu_mask = mask (LENGTH('a) div k), uu_index = 0,
                uu_size = k, uu_pbits = (if k = 1 then 0 else LENGTH('a) div k)\<rparr>
      else Inl overflow_error)"
proof -
  have e: "LENGTH('a) - LENGTH('a) mod k = LENGTH('a) div k * k"
    by (simp add: minus_mod_eq_div_mult)
  have "drop_bit (LENGTH('a) mod k) (- 1 :: 'a word) = mask (LENGTH('a) div k * k)"
    by (simp add: drop_bit_of_minus_1_eq e)
  moreover have "LENGTH('a) div k * k \<le> LENGTH('a)" by simp
  ultimately have "(drop_bit (LENGTH('a) mod k) (- 1 :: 'a word) < n) \<longleftrightarrow>
      \<not> uint n < 2 ^ (LENGTH('a) div k * k)"
    using word_le_mask_iff [of "LENGTH('a) div k * k" n] by (simp only: not_le [symmetric])
  then show ?thesis
    using assms by (simp add: unsigned_bit_unpacker_def Let_def drop_bit_minus_1_mask)
qed

lemma unsigned_pop_n_ok:
  fixes st :: "('a::len word) unsigned_bit_unpacker_impl"
  assumes "uu_index st + m \<le> uu_size st"
  shows "unsigned_pop_n st m =
     Inr (map (\<lambda>j. drop_bit (uu_pbits st * j) (uu_value st) AND uu_mask st) [0 ..< m])"
  using assms
proof (induction m arbitrary: st)
  case 0
  then show ?case by simp
next
  case (Suc m)
  let ?st1 = "st\<lparr>uu_index := Suc (uu_index st),
                   uu_value := drop_bit (uu_pbits st) (uu_value st)\<rparr>"
  have step: "unsigned_pop st = (Inr (uu_value st AND uu_mask st), ?st1)"
    using Suc.prems by (simp add: unsigned_pop_def)
  have "unsigned_pop_n ?st1 m =
     Inr (map (\<lambda>j. drop_bit (uu_pbits ?st1 * j) (uu_value ?st1) AND uu_mask ?st1) [0 ..< m])"
    using Suc.prems by (intro Suc.IH) auto
  then have ih: "unsigned_pop_n ?st1 m =
     Inr (map (\<lambda>j. drop_bit (uu_pbits st * Suc j) (uu_value st) AND uu_mask st) [0 ..< m])"
    by (simp add: drop_bit_drop_bit add.commute del: upt_Suc)
  have "[0 ..< Suc m] = 0 # map Suc [0 ..< m]"
    by (simp add: upt_conv_Cons map_Suc_upt del: upt_Suc)
  then show ?case
    by (simp add: step ih comp_def del: upt_Suc)
qed

lemma unsigned_unpack_accepts:
  fixes n :: "'a::len word"
  assumes k: "1 \<le> k" "k \<le> LENGTH('a)"
    and acc: "uint n < 2 ^ (LENGTH('a) div k * k)"
  shows "\<exists>xs. unsigned_unpack n k = Inr xs \<and> length xs = k
           \<and> (\<forall>x\<in>set xs. uint x < 2 ^ (LENGTH('a) div k))
           \<and> word_of_int (pval (LENGTH('a) div k) (map uint xs)) = n"
proof -
  define p where "p = LENGTH('a) div k"
  define pb where "pb = (if k = 1 then 0 else p)"
  let ?st = "\<lparr>uu_value = n, uu_mask = mask p, uu_index = 0, uu_size = k, uu_pbits = pb\<rparr>"
  define xs :: "'a word list" where "xs = map (\<lambda>j. drop_bit (pb * j) n AND mask p) [0 ..< k]"
  have c: "unsigned_bit_unpacker n k = Inr ?st"
    using acc by (simp add: unsigned_bit_unpacker_Inr [OF k] p_def pb_def)
  have "unsigned_pop_n ?st k =
     Inr (map (\<lambda>j. drop_bit (uu_pbits ?st * j) (uu_value ?st) AND uu_mask ?st) [0 ..< k])"
    by (rule unsigned_pop_n_ok) simp
  then have un: "unsigned_unpack n k = Inr xs"
    by (simp add: unsigned_unpack_def c xs_def del: upt_Suc)
  have d: "uint (drop_bit (pb * j) n AND mask p) = digit p j (uint n)" if "j < k" for j
  proof -
    have e: "pb * j = p * j" using that by (auto simp: pb_def)
    have t: "take_bit LENGTH('a) (uint n) = uint n"
      by (simp add: take_bit_int_eq_self)
    show ?thesis
      unfolding e
      by (simp add: take_bit_eq_mask [symmetric] unsigned_take_bit_eq unsigned_drop_bit_eq
          digit_def t)
  qed
  have ms: "map uint xs = map (\<lambda>j. digit p j (uint n)) [0 ..< k]"
    unfolding xs_def using d by (simp del: upt_Suc)
  have "pval p (map uint xs) = take_bit (p * k) (uint n)"
    unfolding ms by (rule pval_digits)
  also have "\<dots> = uint n"
    using acc by (simp add: take_bit_int_eq_self p_def mult.commute)
  finally have pv: "(word_of_int (pval p (map uint xs)) :: 'a word) = n" by simp
  have rng: "\<forall>x\<in>set xs. uint x < 2 ^ p"
    unfolding xs_def using d digit_bounds [of p _ "uint n"] by (auto simp del: upt_Suc)
  show ?thesis
    using un rng pv unfolding p_def by (intro exI [of _ xs]) (simp add: xs_def)
qed

lemma unsigned_unpack_pack:
  fixes xs :: "('a::len word) list"
  assumes k: "1 \<le> k" "k \<le> LENGTH('a)" and len: "length xs = k"
    and rng: "\<forall>x\<in>set xs. uint x < 2 ^ (LENGTH('a) div k)"
  shows "unsigned_unpack (word_of_int (pval (LENGTH('a) div k) (map uint xs)) :: 'a word) k = Inr xs"
proof -
  define p where "p = LENGTH('a) div k"
  define V where "V = pval p (map uint xs)"
  define n :: "'a word" where "n = word_of_int V"
  have rng': "\<forall>x\<in>set (map uint xs). 0 \<le> x \<and> x < 2 ^ p"
    using rng by (auto simp: p_def)
  have le: "(2::int) ^ (p * k) \<le> 2 ^ LENGTH('a)"
    unfolding p_def by (intro power_increasing) auto
  have Vb: "0 \<le> V" "V < 2 ^ (p * k)"
    using pval_unsigned_bounds [OF rng'] len by (auto simp: V_def)
  have VN: "V < 2 ^ LENGTH('a)" using Vb le by linarith
  have un: "uint n = V" unfolding n_def using Vb(1) VN by (rule uint_of_int_eq)
  have acc: "uint n < 2 ^ (LENGTH('a) div k * k)" using Vb un by (simp add: p_def)
  from unsigned_unpack_accepts [OF k acc] obtain ys where
    ys: "unsigned_unpack n k = Inr ys" "length ys = k" "\<forall>y\<in>set ys. uint y < 2 ^ p"
    "(word_of_int (pval p (map uint ys)) :: 'a word) = n"
    unfolding p_def by blast
  have rys: "\<forall>x\<in>set (map uint ys). 0 \<le> x \<and> x < 2 ^ p"
    using ys(3) by auto
  have Wb: "0 \<le> pval p (map uint ys)" "pval p (map uint ys) < 2 ^ (p * k)"
    using pval_unsigned_bounds [OF rys] ys(2) by auto
  have "uint (word_of_int (pval p (map uint ys)) :: 'a word) = uint n" using ys(4) by simp
  moreover have "pval p (map uint ys) < 2 ^ LENGTH('a)" using Wb le by linarith
  ultimately have "pval p (map uint ys) = V"
    using Wb(1) un by (simp add: uint_of_int_eq)
  then have "map uint ys = map uint xs"
    using rng' rys len ys(2) unfolding V_def by (intro pval_inj_unsigned [of _ _ p]) auto
  moreover have "inj (uint :: 'a word \<Rightarrow> int)"
  proof (rule injI)
    fix x y :: "'a word"
    assume "uint x = uint y"
    then have "(word_of_int (uint x) :: 'a word) = word_of_int (uint y)" by simp
    then show "x = y" by simp
  qed
  ultimately have "ys = xs" by (simp add: inj_map_eq_map)
  then show ?thesis using ys(1) by (simp add: n_def V_def p_def)
qed

lemma signed_packer_range:
  fixes st :: "('a::len word) signed_bit_packer_impl"
  assumes ctor: "signed_bit_packer k = Inr st" and k: "1 \<le> k"
  shows "(sp_min st \<le>s x \<and> x \<le>s sp_max st) \<longleftrightarrow>
     - (2 ^ (signed_slot_bits LENGTH('a) k - 1)) \<le> sint x
       \<and> sint x < 2 ^ (signed_slot_bits LENGTH('a) k - 1)"
proof -
  define p where "p = signed_slot_bits LENGTH('a) k"
  note c = signed_bit_packer_Inr [OF ctor k]
  have st: "sp_min st = - (2 ^ (p - 1))" "sp_max st = 2 ^ (p - 1) - 1"
    unfolding p_def by (subst c(2), simp)+
  have p0: "0 < p" and kp: "k * p \<le> LENGTH('a)"
    unfolding p_def using signed_slot_bits_bounds [OF k c(1)] by auto
  have pN: "p \<le> LENGTH('a)"
    using slot_le_width [OF k, of p "LENGTH('a)"] kp by (simp add: mult.commute)
  show ?thesis
    unfolding st p_def [symmetric] by (rule signed_slot_range [OF p0 pN])
qed

lemma unsigned_packer_range:
  fixes st :: "('a::len word) unsigned_bit_packer_impl"
  assumes ctor: "unsigned_bit_packer k = Inr st" and k: "1 \<le> k"
  shows "k \<le> LENGTH('a)" and "x \<le> up_max st \<longleftrightarrow> uint x < 2 ^ (LENGTH('a) div k)"
proof -
  show kN: "k \<le> LENGTH('a)"
    using ctor by (auto simp: unsigned_bit_packer_def Let_def split: if_splits)
  have "up_max st = mask (LENGTH('a) div k)"
    using ctor unfolding unsigned_bit_packer_Inr [OF k kN] by auto
  then show "x \<le> up_max st \<longleftrightarrow> uint x < 2 ^ (LENGTH('a) div k)"
    by (simp add: word_le_mask_iff)
qed

lemma signed_roundtrip_size_0:
  "signed_pack 0 ([] :: ('a::len word) list) = Inr 0"
  "signed_unpack (0 :: 'a::len word) 0 = Inr []"
  by (simp_all add: signed_pack_def signed_bit_packer_def signed_get_def
      signed_unpack_def signed_bit_unpacker_def)

lemma unsigned_roundtrip_size_0:
  "unsigned_pack 0 ([] :: ('a::len word) list) = Inr 0"
  "unsigned_unpack (0 :: 'a::len word) 0 = Inr []"
  by (simp_all add: unsigned_pack_def unsigned_bit_packer_def unsigned_get_def
      unsigned_unpack_def unsigned_bit_unpacker_def)

text \<open>
  Claim C4.  For a size \<open>k\<close> accepted by the packer's constructor and \<open>k\<close> values inside
  the range of the constructed packer, pushing the values in order and calling \<open>get()\<close>
  returns a word \<open>w\<close> without any exception, and constructing an unpacker on \<open>w\<close> with
  size \<open>k\<close> and extracting \<open>k\<close> values returns the original values in order, again
  without any exception.  This holds for the signed and for the unsigned implementation,
  for every word width.
\<close>

theorem pack_unpack_roundtrip:
  fixes xs ys :: "('a::len word) list"
  shows "(signed_bit_packer k = Inr sst \<and> length xs = k
            \<and> (\<forall>x\<in>set xs. sp_min sst \<le>s x \<and> x \<le>s sp_max sst)
          \<longrightarrow> (\<exists>w. signed_pack k xs = Inr w \<and> signed_unpack w k = Inr xs))
       \<and> (unsigned_bit_packer k = Inr ust \<and> length ys = k
            \<and> (\<forall>y\<in>set ys. y \<le> up_max ust)
          \<longrightarrow> (\<exists>w. unsigned_pack k ys = Inr w \<and> unsigned_unpack w k = Inr ys))"
proof (intro conjI impI)
  assume a: "signed_bit_packer k = Inr sst \<and> length xs = k
            \<and> (\<forall>x\<in>set xs. sp_min sst \<le>s x \<and> x \<le>s sp_max sst)"
  show "\<exists>w. signed_pack k xs = Inr w \<and> signed_unpack w k = Inr xs"
  proof (cases "k = 0")
    case True
    then show ?thesis using a by (simp add: signed_roundtrip_size_0)
  next
    case False
    then have k: "1 \<le> k" by simp
    have kN: "k < LENGTH('a)" using signed_bit_packer_Inr(1) [OF _ k] a by blast
    have rng: "\<forall>x\<in>set xs. - (2 ^ (signed_slot_bits LENGTH('a) k - 1)) \<le> sint x
                \<and> sint x < 2 ^ (signed_slot_bits LENGTH('a) k - 1)"
      using a signed_packer_range [OF _ k, of sst] by blast
    from a have len: "length xs = k" by simp
    show ?thesis
      using signed_pack_ok [OF k kN len rng] signed_unpack_pack [OF k kN len rng] by simp
  qed
next
  assume a: "unsigned_bit_packer k = Inr ust \<and> length ys = k \<and> (\<forall>y\<in>set ys. y \<le> up_max ust)"
  show "\<exists>w. unsigned_pack k ys = Inr w \<and> unsigned_unpack w k = Inr ys"
  proof (cases "k = 0")
    case True
    then show ?thesis using a by (simp add: unsigned_roundtrip_size_0)
  next
    case False
    then have k: "1 \<le> k" by simp
    have kN: "k \<le> LENGTH('a)" using unsigned_packer_range(1) [OF _ k] a by blast
    have rng: "\<forall>y\<in>set ys. uint y < 2 ^ (LENGTH('a) div k)"
      using a unsigned_packer_range(2) [OF _ k, of ust] by blast
    from a have len: "length ys = k" by simp
    show ?thesis
      using unsigned_pack_ok [OF k kN len rng] unsigned_unpack_pack [OF k kN len rng] by simp
  qed
qed

text \<open>
  Claim C10.  For a size \<open>k \<ge> 1\<close> and a word \<open>n\<close> on which the unpacker's constructor
  succeeds, extracting \<open>k\<close> values succeeds, a packer of size \<open>k\<close> can be constructed,
  every extracted value lies in the range of that packer, and pushing the extracted
  values in order and calling \<open>get()\<close> returns exactly \<open>n\<close>.  This holds for the signed
  and for the unsigned implementation, for every word width.
\<close>

theorem unpack_pack_identity:
  fixes n :: "'a::len word"
  shows "(1 \<le> k \<and> signed_bit_unpacker n k = Inr sst
          \<longrightarrow> (\<exists>xs st0. signed_unpack n k = Inr xs \<and> signed_bit_packer k = Inr st0
                 \<and> (\<forall>x\<in>set xs. sp_min st0 \<le>s x \<and> x \<le>s sp_max st0)
                 \<and> signed_pack k xs = Inr n))
       \<and> (1 \<le> k \<and> unsigned_bit_unpacker n k = Inr ust
          \<longrightarrow> (\<exists>ys st0. unsigned_unpack n k = Inr ys \<and> unsigned_bit_packer k = Inr st0
                 \<and> (\<forall>y\<in>set ys. y \<le> up_max st0)
                 \<and> unsigned_pack k ys = Inr n))"
proof (intro conjI impI)
  assume a: "1 \<le> k \<and> signed_bit_unpacker n k = Inr sst"
  then have k: "1 \<le> k" by simp
  have kN: "k < LENGTH('a)"
    using a by (auto simp: signed_bit_unpacker_def Let_def split: if_splits)
  have acc: "2 \<le> k \<longrightarrow> signed_packed_min (signed_pbits LENGTH('a) k) k \<le> sint n
                \<and> sint n \<le> signed_packed_max (signed_pbits LENGTH('a) k) k"
  proof
    assume k2: "2 \<le> k"
    show "signed_packed_min (signed_pbits LENGTH('a) k) k \<le> sint n
                \<and> sint n \<le> signed_packed_max (signed_pbits LENGTH('a) k) k"
      using a unfolding signed_bit_unpacker_ge2 [OF k2 kN] by (auto split: if_splits)
  qed
  from signed_unpack_accepts [OF k kN acc] obtain xs where
    xs: "signed_unpack n k = Inr xs" "length xs = k"
    "\<forall>x\<in>set xs. - (2 ^ (signed_slot_bits LENGTH('a) k - 1)) \<le> sint x
                \<and> sint x < 2 ^ (signed_slot_bits LENGTH('a) k - 1)"
    "word_of_int (pval (signed_slot_bits LENGTH('a) k) (map sint xs)) = n"
    by blast
  obtain st0 :: "('a word) signed_bit_packer_impl" where ctor: "signed_bit_packer k = Inr st0"
    using k kN by (cases "k = 1") (auto simp: signed_bit_packer_def Let_def)
  have "\<forall>x\<in>set xs. sp_min st0 \<le>s x \<and> x \<le>s sp_max st0"
    using xs(3) signed_packer_range [OF ctor k] by blast
  moreover have "signed_pack k xs = Inr n"
    using signed_pack_ok [OF k kN xs(2,3)] xs(4) by simp
  ultimately show "\<exists>xs st0. signed_unpack n k = Inr xs \<and> signed_bit_packer k = Inr st0
                 \<and> (\<forall>x\<in>set xs. sp_min st0 \<le>s x \<and> x \<le>s sp_max st0)
                 \<and> signed_pack k xs = Inr n"
    using xs(1) ctor by blast
next
  assume a: "1 \<le> k \<and> unsigned_bit_unpacker n k = Inr ust"
  then have k: "1 \<le> k" by simp
  have kN: "k \<le> LENGTH('a)"
    using a by (auto simp: unsigned_bit_unpacker_def Let_def split: if_splits)
  have acc: "uint n < 2 ^ (LENGTH('a) div k * k)"
    using a unfolding unsigned_bit_unpacker_Inr [OF k kN] by (auto split: if_splits)
  from unsigned_unpack_accepts [OF k kN acc] obtain ys where
    ys: "unsigned_unpack n k = Inr ys" "length ys = k"
    "\<forall>y\<in>set ys. uint y < 2 ^ (LENGTH('a) div k)"
    "word_of_int (pval (LENGTH('a) div k) (map uint ys)) = n"
    by blast
  let ?st0 = "\<lparr>up_value = 0 :: 'a word, up_max = mask (LENGTH('a) div k), up_index = 0,
          up_size = k, up_pbits = LENGTH('a) div k, up_cur_shift = 0\<rparr>"
  have ctor: "unsigned_bit_packer k = Inr ?st0" by (rule unsigned_bit_packer_Inr [OF k kN])
  have "\<forall>y\<in>set ys. y \<le> up_max ?st0"
    using ys(3) unsigned_packer_range(2) [OF ctor k] by blast
  moreover have "unsigned_pack k ys = Inr n"
    using unsigned_pack_ok [OF k kN ys(2,3)] ys(4) by simp
  ultimately show "\<exists>ys st0. unsigned_unpack n k = Inr ys \<and> unsigned_bit_packer k = Inr st0
                 \<and> (\<forall>y\<in>set ys. y \<le> up_max st0)
                 \<and> unsigned_pack k ys = Inr n"
    using ys(1) ctor by blast
qed

lemma signed_pack_min_max:
  fixes sst :: "('a::len word) signed_bit_packer_impl"
  assumes ctor: "signed_bit_packer k = Inr sst" and k: "1 \<le> k"
  shows "signed_pack k (replicate k (sp_min sst))
           = Inr (word_of_int (signed_packed_min (signed_slot_bits LENGTH('a) k) k))"
    and "signed_pack k (replicate k (sp_max sst))
           = Inr (word_of_int (signed_packed_max (signed_slot_bits LENGTH('a) k) k))"
proof -
  define p where "p = signed_slot_bits LENGTH('a) k"
  note c = signed_bit_packer_Inr [OF ctor k]
  have st: "sp_min sst = - (2 ^ (p - 1))" "sp_max sst = 2 ^ (p - 1) - 1"
    unfolding p_def by (subst c(2), simp)+
  have p0: "0 < p" and kp: "k * p \<le> LENGTH('a)"
    unfolding p_def using signed_slot_bits_bounds [OF k c(1)] by auto
  have pN: "p \<le> LENGTH('a)"
    using slot_le_width [OF k, of p "LENGTH('a)"] kp by (simp add: mult.commute)
  have pos: "(0::int) < 2 ^ (p - 1)" by simp
  have s1: "sint (- (2 ^ (p - 1)) :: 'a word) = - (2 ^ (p - 1))"
    by (rule sint_neg_2p [OF p0 pN])
  have s2: "sint (2 ^ (p - 1) - 1 :: 'a word) = 2 ^ (p - 1) - 1"
    by (rule sint_2p_m1 [OF p0 pN])
  show "signed_pack k (replicate k (sp_min sst))
           = Inr (word_of_int (signed_packed_min (signed_slot_bits LENGTH('a) k) k))"
    unfolding st p_def [symmetric]
    using signed_pack_ok [OF k c(1), of "replicate k (- (2 ^ (p - 1)))"] pos s1
    by (simp add: p_def [symmetric] signed_packed_min_def map_replicate_const)
  show "signed_pack k (replicate k (sp_max sst))
           = Inr (word_of_int (signed_packed_max (signed_slot_bits LENGTH('a) k) k))"
    unfolding st p_def [symmetric]
    using signed_pack_ok [OF k c(1), of "replicate k (2 ^ (p - 1) - 1)"] pos s2
    by (simp add: p_def [symmetric] signed_packed_max_def map_replicate_const)
qed

lemma signed_unpacker_check:
  fixes n :: "'a::len word"
  assumes k: "1 \<le> k" "k < LENGTH('a)"
  defines "pmin \<equiv> (word_of_int (signed_packed_min (signed_slot_bits LENGTH('a) k) k) :: 'a word)"
    and "pmax \<equiv> (word_of_int (signed_packed_max (signed_slot_bits LENGTH('a) k) k) :: 'a word)"
  shows "signed_bit_unpacker n k = Inl overflow_error \<longleftrightarrow> n <s pmin \<or> pmax <s n"
    and "\<not> (n <s pmin \<or> pmax <s n) \<Longrightarrow> \<exists>st. signed_bit_unpacker n k = Inr st"
    and "2 \<le> k \<Longrightarrow> sbp_get_mmp ! (k - 1) = (pmin, pmax)"
proof -
  define p where "p = signed_slot_bits LENGTH('a) k"
  have p0: "0 < p" and kp: "k * p \<le> LENGTH('a)" and kp2: "2 \<le> k \<Longrightarrow> k * p < LENGTH('a)"
    unfolding p_def using signed_slot_bits_bounds [OF k] by auto
  have both: "(signed_bit_unpacker n k = Inl overflow_error \<longleftrightarrow> n <s pmin \<or> pmax <s n)
      \<and> (\<not> (n <s pmin \<or> pmax <s n) \<longrightarrow> (\<exists>st. signed_bit_unpacker n k = Inr st))"
  proof (cases "k = 1")
    case True
    then have pN: "p = LENGTH('a)" by (simp add: p_def signed_slot_bits_def)
    have "signed_packed_min p k = - (2 ^ (LENGTH('a) - 1))"
      "signed_packed_max p k = 2 ^ (LENGTH('a) - 1) - 1"
      using True by (simp_all add: signed_packed_min_def signed_packed_max_def pN)
    then have s: "sint pmin = - (2 ^ (LENGTH('a) - 1))" "sint pmax = 2 ^ (LENGTH('a) - 1) - 1"
      unfolding pmin_def pmax_def p_def [symmetric]
      using sint_neg_2p [of "LENGTH('a)", where ?'a = 'a] sint_2p_m1 [of "LENGTH('a)", where ?'a = 'a]
      by simp_all
    have no: "\<not> (n <s pmin \<or> pmax <s n)"
      unfolding word_sless_alt s using sint_ge [of n] sint_lt [of n] by linarith
    have "\<exists>st. signed_bit_unpacker n k = Inr st"
      using True k by (simp add: signed_bit_unpacker_def)
    then show ?thesis using no by auto
  next
    case False
    then have k2: "2 \<le> k" using k by simp
    have sb: "signed_pbits LENGTH('a) k = p" using False by (simp add: p_def signed_slot_bits_def)
    have m: "p * k \<le> LENGTH('a) - 1" using kp2 [OF k2] by (simp add: mult.commute)
    note b = signed_packed_bounds [OF p0 m]
    have s1: "sint pmin = signed_packed_min p k"
      unfolding pmin_def p_def [symmetric] using b by (intro sint_of_int_eq) auto
    have s2: "sint pmax = signed_packed_max p k"
      unfolding pmax_def p_def [symmetric] using b by (intro sint_of_int_eq) auto
    show ?thesis
      unfolding signed_bit_unpacker_ge2 [OF k2 k(2)] sb word_sless_alt s1 s2 by auto
  qed
  show "signed_bit_unpacker n k = Inl overflow_error \<longleftrightarrow> n <s pmin \<or> pmax <s n"
    using both by blast
  show "\<not> (n <s pmin \<or> pmax <s n) \<Longrightarrow> \<exists>st. signed_bit_unpacker n k = Inr st"
    using both by blast
  show "sbp_get_mmp ! (k - 1) = (pmin, pmax)" if "2 \<le> k"
    using sbp_get_mmp_nth [OF that k(2)] that
    by (simp add: pmin_def pmax_def signed_slot_bits_def)
qed

lemma unsigned_pack_min_max:
  assumes k: "1 \<le> k" "k \<le> LENGTH('a::len)"
  shows "unsigned_pack k (replicate k (0 :: 'a word)) = Inr 0"
    and "unsigned_pack k (replicate k (mask (LENGTH('a) div k) :: 'a word))
           = Inr (mask (LENGTH('a) div k * k))"
proof -
  let ?p = "LENGTH('a) div k"
  have pN: "?p \<le> LENGTH('a)" by simp
  show "unsigned_pack k (replicate k (0 :: 'a word)) = Inr 0"
    using unsigned_pack_ok [OF k, of "replicate k 0"]
    by (simp add: map_replicate_const pval_replicate_zero)
  have u: "uint (mask ?p :: 'a word) = 2 ^ ?p - 1" by (rule uint_mask_le [OF pN])
  have pos: "(0::int) < 2 ^ ?p" by simp
  have "unsigned_pack k (replicate k (mask ?p :: 'a word))
      = Inr (word_of_int (pval ?p (replicate k (2 ^ ?p - 1))))"
    using unsigned_pack_ok [OF k, of "replicate k (mask ?p)"] u pos
    by (simp add: map_replicate_const)
  also have "(word_of_int (pval ?p (replicate k (2 ^ ?p - 1))) :: 'a word) = mask (?p * k)"
    unfolding pval_replicate_mask by (simp add: mask_eq_exp_minus_1)
  finally show "unsigned_pack k (replicate k (mask ?p :: 'a word)) = Inr (mask (?p * k))" .
qed

text \<open>
  Claim C6.  For a size \<open>k \<ge> 1\<close> accepted by the packer's constructor, let \<open>pmin\<close> and
  \<open>pmax\<close> be the words obtained by packing \<open>k\<close> copies of the packer's \<open>m_min\<close>
  (\<open>0\<close> for the unsigned packer) and \<open>k\<close> copies of its \<open>m_max\<close>; both packings succeed.
  The unpacker's constructor throws \<open>overflow_error\<close> on \<open>n\<close> exactly when \<open>n\<close> is outside
  \<open>[pmin, pmax]\<close> in the order of the type, and it succeeds on every \<open>n\<close> inside.  For the
  signed unpacker and \<open>k \<ge> 2\<close> the pair \<open>(pmin, pmax)\<close> is the entry \<open>k - 1\<close> of the table
  of precomputed constants.
\<close>

theorem unpacker_range_check:
  fixes n :: "'a::len word"
  shows "(1 \<le> k \<and> signed_bit_packer k = Inr sst \<longrightarrow>
           (\<exists>pmin pmax. signed_pack k (replicate k (sp_min sst)) = Inr pmin
              \<and> signed_pack k (replicate k (sp_max sst)) = Inr pmax
              \<and> (signed_bit_unpacker n k = Inl overflow_error \<longleftrightarrow> n <s pmin \<or> pmax <s n)
              \<and> (\<not> (n <s pmin \<or> pmax <s n) \<longrightarrow> (\<exists>st. signed_bit_unpacker n k = Inr st))
              \<and> (2 \<le> k \<longrightarrow> sbp_get_mmp ! (k - 1) = (pmin, pmax))))
       \<and> (1 \<le> k \<and> unsigned_bit_packer k = Inr ust \<longrightarrow>
           (\<exists>pmin pmax. unsigned_pack k (replicate k 0) = Inr pmin
              \<and> unsigned_pack k (replicate k (up_max ust)) = Inr pmax
              \<and> (unsigned_bit_unpacker n k = Inl overflow_error \<longleftrightarrow> n < pmin \<or> pmax < n)
              \<and> (\<not> (n < pmin \<or> pmax < n) \<longrightarrow> (\<exists>st. unsigned_bit_unpacker n k = Inr st))))"
proof (intro conjI impI)
  assume a: "1 \<le> k \<and> signed_bit_packer k = Inr sst"
  then have k: "1 \<le> k" and ctor: "signed_bit_packer k = Inr sst" by simp_all
  have kN: "k < LENGTH('a)" by (rule signed_bit_packer_Inr(1) [OF ctor k])
  show "\<exists>pmin pmax. signed_pack k (replicate k (sp_min sst)) = Inr pmin
              \<and> signed_pack k (replicate k (sp_max sst)) = Inr pmax
              \<and> (signed_bit_unpacker n k = Inl overflow_error \<longleftrightarrow> n <s pmin \<or> pmax <s n)
              \<and> (\<not> (n <s pmin \<or> pmax <s n) \<longrightarrow> (\<exists>st. signed_bit_unpacker n k = Inr st))
              \<and> (2 \<le> k \<longrightarrow> sbp_get_mmp ! (k - 1) = (pmin, pmax))"
    using signed_pack_min_max [OF ctor k] signed_unpacker_check [OF k kN]
    by (intro exI conjI) auto
next
  assume a: "1 \<le> k \<and> unsigned_bit_packer k = Inr ust"
  then have k: "1 \<le> k" and ctor: "unsigned_bit_packer k = Inr ust" by simp_all
  have kN: "k \<le> LENGTH('a)" by (rule unsigned_packer_range(1) [OF ctor k])
  let ?p = "LENGTH('a) div k"
  have mx: "up_max ust = mask ?p"
    using ctor unfolding unsigned_bit_packer_Inr [OF k kN] by auto
  have le: "?p * k \<le> LENGTH('a)" by simp
  have lt: "(mask (?p * k) < n) \<longleftrightarrow> \<not> uint n < 2 ^ (?p * k)"
    using word_le_mask_iff [OF le, of n] by (simp only: not_le [symmetric])
  have chk: "unsigned_bit_unpacker n k = Inl overflow_error \<longleftrightarrow> n < 0 \<or> mask (?p * k) < n"
    unfolding unsigned_bit_unpacker_Inr [OF k kN] lt by simp
  have acc: "\<not> (n < 0 \<or> mask (?p * k) < n) \<longrightarrow> (\<exists>st. unsigned_bit_unpacker n k = Inr st)"
    unfolding unsigned_bit_unpacker_Inr [OF k kN] lt by simp
  show "\<exists>pmin pmax. unsigned_pack k (replicate k 0) = Inr pmin
              \<and> unsigned_pack k (replicate k (up_max ust)) = Inr pmax
              \<and> (unsigned_bit_unpacker n k = Inl overflow_error \<longleftrightarrow> n < pmin \<or> pmax < n)
              \<and> (\<not> (n < pmin \<or> pmax < n) \<longrightarrow> (\<exists>st. unsigned_bit_unpacker n k = Inr st))"
    unfolding mx using unsigned_pack_min_max [OF k kN] chk acc
    by (intro exI [of _ 0] exI [of _ "mask (?p * k)"] conjI) auto
qed

theorem pack_unpack_roundtrip_witness:
  "signed_bit_packer 3 = Inr \<lparr>sp_value = 0 :: 64 word, sp_min = - 1048576, sp_max = 1048575,
       sp_index = 0, sp_size = 3, sp_pbits = 21, sp_cur_shift = 0\<rparr>
   \<and> (\<exists>w. signed_pack 3 [- 5, 7, 100 :: 64 word] = Inr w \<and> signed_unpack w 3 = Inr [- 5, 7, 100])
   \<and> unsigned_bit_packer 3 = Inr \<lparr>up_value = 0 :: 64 word, up_max = 2097151,
       up_index = 0, up_size = 3, up_pbits = 21, up_cur_shift = 0\<rparr>
   \<and> (\<exists>w. unsigned_pack 3 [1, 2, 2097151 :: 64 word] = Inr w
          \<and> unsigned_unpack w 3 = Inr [1, 2, 2097151])"
  using pack_unpack_roundtrip
    [of 3 "\<lparr>sp_value = 0 :: 64 word, sp_min = - 1048576, sp_max = 1048575,
       sp_index = 0, sp_size = 3, sp_pbits = 21, sp_cur_shift = 0\<rparr>" "[- 5, 7, 100]"
       "\<lparr>up_value = 0 :: 64 word, up_max = 2097151,
       up_index = 0, up_size = 3, up_pbits = 21, up_cur_shift = 0\<rparr>" "[1, 2, 2097151]"]
  by (simp add: signed_bit_packer_def unsigned_bit_packer_def signed_pbits_def word_sle_eq
      drop_bit_of_minus_1_eq mask_eq_exp_minus_1)

theorem unpack_pack_identity_witness:
  "signed_bit_unpacker (12345 :: 64 word) 3 =
       Inr \<lparr>su_value = 12345, su_min = - 1048576, su_s_value = 4611688217451704377,
            su_index = 0, su_size = 3, su_pbits = 21, su_cur_shift = 0\<rparr>
   \<and> (\<exists>xs st0. signed_unpack (12345 :: 64 word) 3 = Inr xs \<and> signed_bit_packer 3 = Inr st0
          \<and> (\<forall>x\<in>set xs. sp_min st0 \<le>s x \<and> x \<le>s sp_max st0)
          \<and> signed_pack 3 xs = Inr 12345)
   \<and> unsigned_bit_unpacker (12345 :: 64 word) 3 =
       Inr \<lparr>uu_value = 12345, uu_mask = 2097151, uu_index = 0, uu_size = 3, uu_pbits = 21\<rparr>
   \<and> (\<exists>ys st0. unsigned_unpack (12345 :: 64 word) 3 = Inr ys \<and> unsigned_bit_packer 3 = Inr st0
          \<and> (\<forall>y\<in>set ys. y \<le> up_max st0)
          \<and> unsigned_pack 3 ys = Inr 12345)"
proof -
  have mn: "signed_packed_min 21 3 = - 4611688217451692032"
    by (simp add: signed_packed_min_def numeral_3_eq_3)
  have mx: "signed_packed_max 21 3 = 4611683819403083775"
    by (simp add: signed_packed_max_def numeral_3_eq_3)
  have pb: "signed_pbits 64 3 = 21" by (simp add: signed_pbits_def)
  have s: "signed_bit_unpacker (12345 :: 64 word) 3 =
       Inr \<lparr>su_value = 12345, su_min = - 1048576, su_s_value = 4611688217451704377,
            su_index = 0, su_size = 3, su_pbits = 21, su_cur_shift = 0\<rparr>"
    by (simp add: signed_bit_unpacker_ge2 pb mn mx)
  have u: "unsigned_bit_unpacker (12345 :: 64 word) 3 =
       Inr \<lparr>uu_value = 12345, uu_mask = 2097151, uu_index = 0, uu_size = 3, uu_pbits = 21\<rparr>"
    by (simp add: unsigned_bit_unpacker_def drop_bit_of_minus_1_eq mask_eq_exp_minus_1)
  have k: "(1::nat) \<le> 3" by simp
  from unpack_pack_identity
      [of 3 12345 "\<lparr>su_value = 12345 :: 64 word, su_min = - 1048576,
            su_s_value = 4611688217451704377,
            su_index = 0, su_size = 3, su_pbits = 21, su_cur_shift = 0\<rparr>"
          "\<lparr>uu_value = 12345 :: 64 word, uu_mask = 2097151, uu_index = 0,
            uu_size = 3, uu_pbits = 21\<rparr>"]
  show ?thesis using s u k by blast
qed

theorem unpacker_range_check_witness:
  "signed_bit_packer 3 = Inr \<lparr>sp_value = 0 :: 64 word, sp_min = - 1048576, sp_max = 1048575,
       sp_index = 0, sp_size = 3, sp_pbits = 21, sp_cur_shift = 0\<rparr>
   \<and> (\<exists>pmin pmax. signed_pack 3 (replicate 3 (- 1048576 :: 64 word)) = Inr pmin
          \<and> signed_pack 3 (replicate 3 (1048575 :: 64 word)) = Inr pmax
          \<and> (signed_bit_unpacker (2 ^ 62 :: 64 word) 3 = Inl overflow_error
               \<longleftrightarrow> 2 ^ 62 <s pmin \<or> pmax <s 2 ^ 62)
          \<and> (\<not> (2 ^ 62 <s pmin \<or> pmax <s 2 ^ 62)
               \<longrightarrow> (\<exists>st. signed_bit_unpacker (2 ^ 62 :: 64 word) 3 = Inr st))
          \<and> sbp_get_mmp ! 2 = (pmin, pmax))
   \<and> unsigned_bit_packer 3 = Inr \<lparr>up_value = 0 :: 64 word, up_max = 2097151,
       up_index = 0, up_size = 3, up_pbits = 21, up_cur_shift = 0\<rparr>
   \<and> (\<exists>pmin pmax. unsigned_pack 3 (replicate 3 (0 :: 64 word)) = Inr pmin
          \<and> unsigned_pack 3 (replicate 3 (2097151 :: 64 word)) = Inr pmax
          \<and> (unsigned_bit_unpacker (2 ^ 63 :: 64 word) 3 = Inl overflow_error
               \<longleftrightarrow> 2 ^ 63 < pmin \<or> pmax < 2 ^ 63)
          \<and> (\<not> (2 ^ 63 < pmin \<or> pmax < 2 ^ 63)
               \<longrightarrow> (\<exists>st. unsigned_bit_unpacker (2 ^ 63 :: 64 word) 3 = Inr st)))"
  using unpacker_range_check
    [of 3 "\<lparr>sp_value = 0 :: 64 word, sp_min = - 1048576, sp_max = 1048575,
       sp_index = 0, sp_size = 3, sp_pbits = 21, sp_cur_shift = 0\<rparr>" "2 ^ 62"
       "\<lparr>up_value = 0 :: 64 word, up_max = 2097151,
       up_index = 0, up_size = 3, up_pbits = 21, up_cur_shift = 0\<rparr>"]
    unpacker_range_check
    [of 3 "\<lparr>sp_value = 0 :: 64 word, sp_min = - 1048576, sp_max = 1048575,
       sp_index = 0, sp_size = 3, sp_pbits = 21, sp_cur_shift = 0\<rparr>" "2 ^ 63"
       "\<lparr>up_value = 0 :: 64 word, up_max = 2097151,
       up_index = 0, up_size = 3, up_pbits = 21, up_cur_shift = 0\<rparr>"]
  by (simp add: signed_bit_packer_def unsigned_bit_packer_def signed_pbits_def
      drop_bit_of_minus_1_eq mask_eq_exp_minus_1)

lemma signed_unpacker_Inr_unpack:
  fixes n :: "'a::len word"
  assumes k: "1 \<le> k" and st: "signed_bit_unpacker n k = Inr st"
  shows "\<exists>xs. signed_unpack n k = Inr xs \<and> k < LENGTH('a) \<and> length xs = k
           \<and> (\<forall>x\<in>set xs. - (2 ^ (signed_slot_bits LENGTH('a) k - 1)) \<le> sint x
                \<and> sint x < 2 ^ (signed_slot_bits LENGTH('a) k - 1))
           \<and> word_of_int (pval (signed_slot_bits LENGTH('a) k) (map sint xs)) = n"
proof -
  have kN: "k < LENGTH('a)"
    using st by (auto simp: signed_bit_unpacker_def Let_def split: if_splits)
  have acc: "2 \<le> k \<longrightarrow> signed_packed_min (signed_pbits LENGTH('a) k) k \<le> sint n
                \<and> sint n \<le> signed_packed_max (signed_pbits LENGTH('a) k) k"
  proof
    assume k2: "2 \<le> k"
    show "signed_packed_min (signed_pbits LENGTH('a) k) k \<le> sint n
                \<and> sint n \<le> signed_packed_max (signed_pbits LENGTH('a) k) k"
      using st unfolding signed_bit_unpacker_ge2 [OF k2 kN] by (auto split: if_splits)
  qed
  from signed_unpack_accepts [OF k kN acc] kN show ?thesis by blast
qed

lemma unsigned_unpacker_Inr_unpack:
  fixes n :: "'a::len word"
  assumes k: "1 \<le> k" and st: "unsigned_bit_unpacker n k = Inr st"
  shows "\<exists>ys. unsigned_unpack n k = Inr ys \<and> k \<le> LENGTH('a) \<and> length ys = k
           \<and> (\<forall>y\<in>set ys. uint y < 2 ^ (LENGTH('a) div k))
           \<and> word_of_int (pval (LENGTH('a) div k) (map uint ys)) = n"
proof -
  have kN: "k \<le> LENGTH('a)"
    using st by (auto simp: unsigned_bit_unpacker_def Let_def split: if_splits)
  have acc: "uint n < 2 ^ (LENGTH('a) div k * k)"
    using st unfolding unsigned_bit_unpacker_Inr [OF k kN] by (auto split: if_splits)
  from unsigned_unpack_accepts [OF k kN acc] kN show ?thesis by blast
qed

lemma signed_push_all_fail:
  fixes st :: "('a::len word) signed_bit_packer_impl"
  assumes "\<exists>x\<in>set xs. \<not> (sp_min st \<le>s x \<and> x \<le>s sp_max st)"
    and "sp_index st + length xs \<le> sp_size st"
  shows "\<exists>st'. signed_push_all st xs = (Some overflow_error, st')"
  using assms
proof (induction xs arbitrary: st)
  case Nil
  then show ?case by simp
next
  case (Cons x xs)
  show ?case
  proof (cases "sp_min st \<le>s x \<and> x \<le>s sp_max st")
    case False
    then have "x <s sp_min st \<or> sp_max st <s x"
      by (auto simp: word_sle_eq word_sless_alt)
    then have "signed_push st x = (Some overflow_error, st)"
      using Cons.prems(2) by (auto simp: signed_push_def)
    then show ?thesis by simp
  next
    case True
    let ?st1 = "st\<lparr>sp_value := sp_value st + x * push_bit (sp_cur_shift st) 1,
                   sp_index := sp_index st + 1,
                   sp_cur_shift := sp_cur_shift st + sp_pbits st\<rparr>"
    have rng: "\<not> x <s sp_min st" "\<not> sp_max st <s x"
      using True by (auto simp: word_sle_eq word_sless_alt)
    have step: "signed_push st x = (None, ?st1)"
      using rng Cons.prems(2) by (simp add: signed_push_def Let_def)
    have "\<exists>st'. signed_push_all ?st1 xs = (Some overflow_error, st')"
      using Cons.prems True by (intro Cons.IH) auto
    then show ?thesis by (simp add: step)
  qed
qed

lemma unsigned_push_all_fail:
  fixes st :: "('a::len word) unsigned_bit_packer_impl"
  assumes "\<exists>x\<in>set xs. \<not> x \<le> up_max st"
    and "up_index st + length xs \<le> up_size st"
  shows "\<exists>st'. unsigned_push_all st xs = (Some overflow_error, st')"
  using assms
proof (induction xs arbitrary: st)
  case Nil
  then show ?case by simp
next
  case (Cons x xs)
  show ?case
  proof (cases "x \<le> up_max st")
    case False
    then have "unsigned_push st x = (Some overflow_error, st)"
      using Cons.prems(2) by (auto simp: unsigned_push_def not_le)
    then show ?thesis by simp
  next
    case True
    let ?st1 = "st\<lparr>up_value := up_value st + push_bit (up_cur_shift st) x,
                   up_index := up_index st + 1,
                   up_cur_shift := up_cur_shift st + up_pbits st\<rparr>"
    have step: "unsigned_push st x = (None, ?st1)"
      using True Cons.prems(2) by (simp add: unsigned_push_def not_less)
    have "\<exists>st'. unsigned_push_all ?st1 xs = (Some overflow_error, st')"
      using Cons.prems True by (intro Cons.IH) auto
    then show ?thesis by (simp add: step)
  qed
qed

lemma bit_pack_ok:
  fixes xs :: "('a::len word) list"
  assumes k: "1 \<le> k" "valid_arity sg LENGTH('a) k" and len: "length xs = k"
    and rng: "\<forall>x\<in>set xs. in_slot sg (slot_bits sg LENGTH('a) k) (to_int sg x)"
  shows "bit_pack sg k xs
           = Inr (word_of_int (pval (slot_bits sg LENGTH('a) k) (map (to_int sg) xs)))"
proof (cases sg)
  case True
  have "\<forall>x\<in>set xs. - (2 ^ (signed_slot_bits LENGTH('a) k - 1)) \<le> sint x
                \<and> sint x < 2 ^ (signed_slot_bits LENGTH('a) k - 1)"
    using rng True by (auto simp: in_slot_def slot_lo_def slot_hi_def slot_bits_def to_int_def)
  from signed_pack_ok [OF k(1) _ len this] k(2) True show ?thesis
    by (simp add: bit_pack_def valid_arity_def slot_bits_def to_int_def [abs_def])
next
  case False
  have "\<forall>x\<in>set xs. uint x < 2 ^ (LENGTH('a) div k)"
    using rng False by (auto simp: in_slot_def slot_lo_def slot_hi_def slot_bits_def to_int_def)
  from unsigned_pack_ok [OF k(1) _ len this] k(2) False show ?thesis
    by (simp add: bit_pack_def valid_arity_def slot_bits_def to_int_def [abs_def])
qed

lemma bit_unpack_pack:
  fixes xs :: "('a::len word) list"
  assumes k: "1 \<le> k" "valid_arity sg LENGTH('a) k" and len: "length xs = k"
    and rng: "\<forall>x\<in>set xs. in_slot sg (slot_bits sg LENGTH('a) k) (to_int sg x)"
  shows "bit_unpack sg
           (word_of_int (pval (slot_bits sg LENGTH('a) k) (map (to_int sg) xs)) :: 'a word) k
           = Inr xs"
proof (cases sg)
  case True
  have "\<forall>x\<in>set xs. - (2 ^ (signed_slot_bits LENGTH('a) k - 1)) \<le> sint x
                \<and> sint x < 2 ^ (signed_slot_bits LENGTH('a) k - 1)"
    using rng True by (auto simp: in_slot_def slot_lo_def slot_hi_def slot_bits_def to_int_def)
  from signed_unpack_pack [OF k(1) _ len this] k(2) True show ?thesis
    by (simp add: bit_unpack_def valid_arity_def slot_bits_def to_int_def [abs_def])
next
  case False
  have "\<forall>x\<in>set xs. uint x < 2 ^ (LENGTH('a) div k)"
    using rng False by (auto simp: in_slot_def slot_lo_def slot_hi_def slot_bits_def to_int_def)
  from unsigned_unpack_pack [OF k(1) _ len this] k(2) False show ?thesis
    by (simp add: bit_unpack_def valid_arity_def slot_bits_def to_int_def [abs_def])
qed

lemma bit_pack_fail:
  fixes xs :: "('a::len word) list"
  assumes k: "1 \<le> k" "valid_arity sg LENGTH('a) k" and len: "length xs = k"
    and rng: "\<exists>x\<in>set xs. \<not> in_slot sg (slot_bits sg LENGTH('a) k) (to_int sg x)"
  shows "bit_pack sg k xs = Inl overflow_error"
proof (cases sg)
  case True
  then have kN: "k < LENGTH('a)" using k(2) by (simp add: valid_arity_def)
  obtain st0 :: "('a word) signed_bit_packer_impl" where ctor: "signed_bit_packer k = Inr st0"
    using k(1) kN by (cases "k = 1") (auto simp: signed_bit_packer_def Let_def)
  note c = signed_bit_packer_Inr [OF ctor k(1)]
  have st0: "sp_index st0 = 0" "sp_size st0 = k" by (subst c(2), simp)+
  have "\<exists>x\<in>set xs. \<not> (sp_min st0 \<le>s x \<and> x \<le>s sp_max st0)"
    using rng True unfolding signed_packer_range [OF ctor k(1)]
    by (auto simp: in_slot_def slot_lo_def slot_hi_def slot_bits_def to_int_def)
  from signed_push_all_fail [OF this] obtain st' where
    "signed_push_all st0 xs = (Some overflow_error, st')"
    using len st0 by auto
  then show ?thesis using True by (simp add: bit_pack_def signed_pack_def ctor)
next
  case False
  then have kN: "k \<le> LENGTH('a)" using k(2) by (simp add: valid_arity_def)
  let ?st0 = "\<lparr>up_value = 0 :: 'a word, up_max = mask (LENGTH('a) div k), up_index = 0,
          up_size = k, up_pbits = LENGTH('a) div k, up_cur_shift = 0\<rparr>"
  have ctor: "unsigned_bit_packer k = Inr ?st0" by (rule unsigned_bit_packer_Inr [OF k(1) kN])
  have "\<exists>x\<in>set xs. \<not> x \<le> up_max ?st0"
    using rng False unfolding unsigned_packer_range(2) [OF ctor k(1)]
    by (auto simp: in_slot_def slot_lo_def slot_hi_def slot_bits_def to_int_def)
  from unsigned_push_all_fail [OF this] obtain st' where
    "unsigned_push_all ?st0 xs = (Some overflow_error, st')"
    using len by auto
  then show ?thesis using False by (simp add: bit_pack_def unsigned_pack_def ctor)
qed

lemma bit_unpack_Inr:
  fixes m :: "'a::len word"
  assumes k: "1 \<le> k" and un: "bit_unpack sg m k = Inr xs"
  shows "valid_arity sg LENGTH('a) k" "length xs = k"
    "\<forall>x\<in>set xs. in_slot sg (slot_bits sg LENGTH('a) k) (to_int sg x)"
    "word_of_int (pval (slot_bits sg LENGTH('a) k) (map (to_int sg) xs)) = m"
proof -
  have all: "valid_arity sg LENGTH('a) k \<and> length xs = k
    \<and> (\<forall>x\<in>set xs. in_slot sg (slot_bits sg LENGTH('a) k) (to_int sg x))
    \<and> word_of_int (pval (slot_bits sg LENGTH('a) k) (map (to_int sg) xs)) = m"
  proof (cases sg)
    case True
    then have u: "signed_unpack m k = Inr xs" using un by (simp add: bit_unpack_def)
    then obtain st where st: "signed_bit_unpacker m k = Inr st"
      by (auto simp: signed_unpack_def split: sum.splits)
    from signed_unpacker_Inr_unpack [OF k st] obtain ys where
      ys: "signed_unpack m k = Inr ys" "k < LENGTH('a)" "length ys = k"
      "\<forall>x\<in>set ys. - (2 ^ (signed_slot_bits LENGTH('a) k - 1)) \<le> sint x
                \<and> sint x < 2 ^ (signed_slot_bits LENGTH('a) k - 1)"
      "word_of_int (pval (signed_slot_bits LENGTH('a) k) (map sint ys)) = m"
      by blast
    then show ?thesis using u True
      by (auto simp: valid_arity_def in_slot_def slot_lo_def slot_hi_def slot_bits_def
          to_int_def [abs_def])
  next
    case False
    then have u: "unsigned_unpack m k = Inr xs" using un by (simp add: bit_unpack_def)
    then obtain st where st: "unsigned_bit_unpacker m k = Inr st"
      by (auto simp: unsigned_unpack_def split: sum.splits)
    from unsigned_unpacker_Inr_unpack [OF k st] obtain ys where
      ys: "unsigned_unpack m k = Inr ys" "k \<le> LENGTH('a)" "length ys = k"
      "\<forall>y\<in>set ys. uint y < 2 ^ (LENGTH('a) div k)"
      "word_of_int (pval (LENGTH('a) div k) (map uint ys)) = m"
      by blast
    then show ?thesis using u False
      by (auto simp: valid_arity_def in_slot_def slot_lo_def slot_hi_def slot_bits_def
          to_int_def [abs_def])
  qed
  then show "valid_arity sg LENGTH('a) k" "length xs = k"
    "\<forall>x\<in>set xs. in_slot sg (slot_bits sg LENGTH('a) k) (to_int sg x)"
    "word_of_int (pval (slot_bits sg LENGTH('a) k) (map (to_int sg) xs)) = m"
    by blast+
qed

lemma bit_pack_size_0: "bit_pack sg 0 ([] :: ('a::len word) list) = Inr 0"
  by (simp add: bit_pack_def signed_roundtrip_size_0 unsigned_roundtrip_size_0)

lemma bit_unpack_size_0:
  "bit_unpack sg (m :: 'a::len word) 0 = (if m = 0 then Inr [] else Inl invalid_argument)"
  by (simp add: bit_unpack_def signed_unpack_def signed_bit_unpacker_def
      unsigned_unpack_def unsigned_bit_unpacker_def)

lemma slot_bits_le:
  assumes "1 \<le> k" "valid_arity sg n k"
  shows "0 < slot_bits sg n k" "slot_bits sg n k \<le> n"
proof -
  show "0 < slot_bits sg n k"
    using assms signed_slot_bits_bounds(1) [of k n]
    by (auto simp: slot_bits_def valid_arity_def div_greater_zero_iff)
  show "slot_bits sg n k \<le> n"
  proof (cases sg)
    case True
    then have "k < n" using assms by (simp add: valid_arity_def)
    from signed_slot_bits_bounds(2) [OF assms(1) this]
    have "signed_slot_bits n k * k \<le> n" by (simp add: mult.commute)
    from slot_le_width [OF assms(1) this] True show ?thesis by (simp add: slot_bits_def)
  next
    case False
    then show ?thesis by (simp add: slot_bits_def)
  qed
qed

lemma to_int_of_int_in_slot:
  assumes p: "0 < p" "p \<le> LENGTH('a::len)" and s: "in_slot sg p s"
  shows "to_int sg (word_of_int s :: 'a word) = s"
proof (cases sg)
  case True
  have le: "(2::int) ^ (p - 1) \<le> 2 ^ (LENGTH('a) - 1)"
    using p by (intro power_increasing) auto
  have "- (2 ^ (p - 1)) \<le> s" "s \<le> 2 ^ (p - 1) - 1"
    using s True by (auto simp: in_slot_def slot_lo_def slot_hi_def)
  then have "sint (word_of_int s :: 'a word) = s"
    using le by (intro sint_of_int_eq) linarith+
  then show ?thesis using True by (simp add: to_int_def)
next
  case False
  have le: "(2::int) ^ p \<le> 2 ^ LENGTH('a)"
    using p by (intro power_increasing) auto
  have "0 \<le> s" "s \<le> 2 ^ p - 1"
    using s False by (auto simp: in_slot_def slot_lo_def slot_hi_def)
  then have "uint (word_of_int s :: 'a word) = s"
    using le by (intro uint_of_int_eq) linarith+
  then show ?thesis using False by (simp add: to_int_def)
qed

lemma word_of_int_to_int: "word_of_int (to_int sg x) = x"
  by (simp add: to_int_def)

lemma to_int_inj: "to_int sg x = to_int sg y \<Longrightarrow> x = y"
  by (metis word_of_int_to_int)

lemma add_exponents_cases:
  assumes "length xs = length ys"
  shows "add_exponents sg xs ys =
     (if \<forall>(x, y)\<in>set (zip xs ys). to_int sg (x + y) = to_int sg x + to_int sg y
      then Inr (map (\<lambda>(x, y). x + y) (zip xs ys)) else Inl overflow_error)"
  using assms
  by (induction xs ys rule: list_induct2) (auto simp: checked_add_def)

lemma monomial_multiply_cases:
  fixes a b :: "'a::len word"
  assumes a: "bit_unpack sg a k = Inr xs" and b: "bit_unpack sg b k = Inr ys"
  shows "monomial_multiply sg k a b =
     (if \<forall>(x, y)\<in>set (zip xs ys).
           in_slot sg (slot_bits sg LENGTH('a) k) (to_int sg x + to_int sg y)
      then bit_pack sg k (map (\<lambda>(x, y). x + y) (zip xs ys)) else Inl overflow_error)"
    and "\<forall>(x, y)\<in>set (zip xs ys).
           in_slot sg (slot_bits sg LENGTH('a) k) (to_int sg x + to_int sg y)
         \<Longrightarrow> bit_unpack sg (projr (bit_pack sg k (map (\<lambda>(x, y). x + y) (zip xs ys)))) k
               = Inr (map (\<lambda>(x, y). x + y) (zip xs ys))
             \<and> bit_pack sg k (map (\<lambda>(x, y). x + y) (zip xs ys))
               = Inr (projr (bit_pack sg k (map (\<lambda>(x, y). x + y) (zip xs ys))))
             \<and> (\<forall>(x, y)\<in>set (zip xs ys). to_int sg (x + y) = to_int sg x + to_int sg y)"
proof -
  define p where "p = slot_bits sg LENGTH('a) k"
  define zs where "zs = map (\<lambda>(x, y). x + y) (zip xs ys)"
  have both: "monomial_multiply sg k a b =
     (if \<forall>(x, y)\<in>set (zip xs ys). in_slot sg p (to_int sg x + to_int sg y)
      then bit_pack sg k zs else Inl overflow_error)
    \<and> ((\<forall>(x, y)\<in>set (zip xs ys). in_slot sg p (to_int sg x + to_int sg y))
         \<longrightarrow> bit_unpack sg (projr (bit_pack sg k zs)) k = Inr zs
             \<and> bit_pack sg k zs = Inr (projr (bit_pack sg k zs))
             \<and> (\<forall>(x, y)\<in>set (zip xs ys). to_int sg (x + y) = to_int sg x + to_int sg y))"
  proof (cases "k = 0")
    case True
    then have "xs = []" "ys = []" using a b by (auto simp: bit_unpack_size_0 split: if_splits)
    then show ?thesis
      using True a b
      by (simp add: monomial_multiply_def zs_def bit_pack_size_0 bit_unpack_size_0)
  next
    case False
    then have k: "1 \<le> k" by simp
    note ua = bit_unpack_Inr [OF k a] and ub = bit_unpack_Inr [OF k b]
    have len: "length xs = length ys" using ua(2) ub(2) by simp
    have lz: "length zs = k" using ua(2) ub(2) by (simp add: zs_def)
    note pb = slot_bits_le [OF k ua(1)]
    have wsum: "x + y = word_of_int (to_int sg x + to_int sg y)" for x y :: "'a word"
      by (simp add: word_of_int_to_int)
    have rep: "to_int sg (x + y) = to_int sg x + to_int sg y"
      if "in_slot sg p (to_int sg x + to_int sg y)" for x y :: "'a word"
      using to_int_of_int_in_slot [OF pb [folded p_def] that] wsum [of x y] by simp
    have mm: "monomial_multiply sg k a b =
       (case add_exponents sg xs ys of Inl e \<Rightarrow> Inl e | Inr zs \<Rightarrow> bit_pack sg k zs)"
      by (simp add: monomial_multiply_def a b)
    show ?thesis
    proof (cases "\<forall>(x, y)\<in>set (zip xs ys). in_slot sg p (to_int sg x + to_int sg y)")
      case True
      then have ok: "\<forall>(x, y)\<in>set (zip xs ys). to_int sg (x + y) = to_int sg x + to_int sg y"
        using rep by auto
      then have ae: "add_exponents sg xs ys = Inr zs"
        by (simp add: add_exponents_cases [OF len] zs_def)
      have rz: "\<forall>z\<in>set zs. in_slot sg p (to_int sg z)"
        using True ok by (fastforce simp: zs_def)
      have pk: "bit_pack sg k zs = Inr (word_of_int (pval p (map (to_int sg) zs)))"
        unfolding p_def by (rule bit_pack_ok [OF k ua(1) lz rz [unfolded p_def]])
      have un: "bit_unpack sg (word_of_int (pval p (map (to_int sg) zs)) :: 'a word) k = Inr zs"
        unfolding p_def by (rule bit_unpack_pack [OF k ua(1) lz rz [unfolded p_def]])
      show ?thesis using True ok by (simp add: mm ae pk un)
    next
      case False
      have "monomial_multiply sg k a b = Inl overflow_error"
      proof (cases "\<forall>(x, y)\<in>set (zip xs ys). to_int sg (x + y) = to_int sg x + to_int sg y")
        case ok: True
        then have ae: "add_exponents sg xs ys = Inr zs"
          by (simp add: add_exponents_cases [OF len] zs_def)
        have "\<exists>z\<in>set zs. \<not> in_slot sg p (to_int sg z)"
          using False ok by (fastforce simp: zs_def)
        from bit_pack_fail [OF k ua(1) lz this [unfolded p_def]] show ?thesis
          by (simp add: mm ae)
      next
        case False
        then have "add_exponents sg xs ys = Inl overflow_error"
          unfolding add_exponents_cases [OF len] by (simp only: if_False)
        then show ?thesis by (simp add: mm)
      qed
      then show ?thesis unfolding if_not_P [OF False] using False by blast
    qed
  qed
  show "monomial_multiply sg k a b =
     (if \<forall>(x, y)\<in>set (zip xs ys).
           in_slot sg (slot_bits sg LENGTH('a) k) (to_int sg x + to_int sg y)
      then bit_pack sg k (map (\<lambda>(x, y). x + y) (zip xs ys)) else Inl overflow_error)"
    using both unfolding p_def zs_def by blast
  show "bit_unpack sg (projr (bit_pack sg k (map (\<lambda>(x, y). x + y) (zip xs ys)))) k
               = Inr (map (\<lambda>(x, y). x + y) (zip xs ys))
             \<and> bit_pack sg k (map (\<lambda>(x, y). x + y) (zip xs ys))
               = Inr (projr (bit_pack sg k (map (\<lambda>(x, y). x + y) (zip xs ys))))
             \<and> (\<forall>(x, y)\<in>set (zip xs ys). to_int sg (x + y) = to_int sg x + to_int sg y)"
    if "\<forall>(x, y)\<in>set (zip xs ys).
           in_slot sg (slot_bits sg LENGTH('a) k) (to_int sg x + to_int sg y)"
    using both that unfolding p_def zs_def by blast
qed

lemma csum_simps [simp]:
  "csum [] m = 0"
  "csum (t # ps) m = (if fst t = m then snd t else 0) + csum ps m"
  "csum (ps @ qs) m = csum ps m + csum qs m"
  by (simp_all add: csum_def)

lemma table_ok_set:
  assumes "table_ok ts"
  shows "set ts = {(m, c). table_coef ts m = c \<and> c \<noteq> 0}"
proof -
  have d: "distinct (map fst ts)" and nz: "\<forall>t\<in>set ts. snd t \<noteq> 0"
    using assms by (auto simp: table_ok_def)
  show ?thesis
  proof (intro set_eqI iffI)
    fix t assume t: "t \<in> set ts"
    then have "map_of ts (fst t) = Some (snd t)"
      using d by (metis map_of_is_SomeI prod.collapse)
    then show "t \<in> {(m, c). table_coef ts m = c \<and> c \<noteq> 0}"
      using nz t by (cases t) (auto simp: table_coef_def)
  next
    fix t assume "t \<in> {(m, c). table_coef ts m = c \<and> c \<noteq> 0}"
    then have "table_coef ts (fst t) = snd t" "snd t \<noteq> 0" by auto
    then have "map_of ts (fst t) = Some (snd t)"
      by (auto simp: table_coef_def split: option.splits)
    then show "t \<in> set ts" by (cases t) (auto dest: map_of_SomeD)
  qed
qed

lemma table_insert_or_accumulate_ok:
  assumes "table_ok ts"
  shows "table_ok (table_insert_or_accumulate ts m c)"
    and "table_coef (table_insert_or_accumulate ts m c) m'
           = table_coef ts m' + (if m' = m then c else 0)"
    and "fst ` set (table_insert_or_accumulate ts m c) \<subseteq> insert m (fst ` set ts)"
proof -
  have d: "distinct (map fst ts)" and nz: "\<forall>t\<in>set ts. snd t \<noteq> 0"
    using assms by (auto simp: table_ok_def)
  show "table_ok (table_insert_or_accumulate ts m c)"
  proof (cases "map_of ts m")
    case None
    then have "m \<notin> fst ` set ts" by (simp add: map_of_eq_None_iff)
    then show ?thesis
      using None d nz by (auto simp: table_insert_or_accumulate_def table_ok_def)
  next
    case (Some c0)
    show ?thesis
    proof (cases "c0 + c = 0")
      case True
      have "distinct (map fst (AList.delete m ts))" using d by (rule AList.distinct_delete)
      moreover have "set (AList.delete m ts) \<subseteq> set ts" by (auto simp: AList.delete_eq)
      ultimately show ?thesis
        using Some True nz by (auto simp: table_insert_or_accumulate_def table_ok_def)
    next
      case False
      have "set (AList.update m (c0 + c) ts) \<subseteq> insert (m, c0 + c) (set ts)"
        by (induction ts) auto
      moreover have "distinct (map fst (AList.update m (c0 + c) ts))"
        using d by (rule AList.distinct_update)
      ultimately show ?thesis
        using Some False nz by (auto simp: table_insert_or_accumulate_def table_ok_def)
    qed
  qed
  show "table_coef (table_insert_or_accumulate ts m c) m'
           = table_coef ts m' + (if m' = m then c else 0)"
  proof (cases "map_of ts m")
    case None
    then have "m \<notin> fst ` set ts" by (simp add: map_of_eq_None_iff)
    then have "m \<notin> dom (map_of ts)" by (simp add: dom_map_of_conv_image_fst)
    then show ?thesis
      using None
      by (auto simp: table_insert_or_accumulate_def table_coef_def map_add_def
          split: option.splits)
  next
    case (Some c0)
    then show ?thesis
      by (auto simp: table_insert_or_accumulate_def table_coef_def AList.update_conv'
          AList.delete_conv')
  qed
  show "fst ` set (table_insert_or_accumulate ts m c) \<subseteq> insert m (fst ` set ts)"
  proof -
    have "fst ` set (AList.update m v ts) \<subseteq> insert m (fst ` set ts)" for v
      by (induction ts) auto
    then show ?thesis
      by (auto simp: table_insert_or_accumulate_def AList.delete_eq split: option.splits)
  qed
qed

lemma fold_table_ok:
  assumes "table_ok ts"
  shows "table_ok (fold (\<lambda>t tab. table_insert_or_accumulate tab (fst t) (snd t)) ps ts)"
    and "table_coef (fold (\<lambda>t tab. table_insert_or_accumulate tab (fst t) (snd t)) ps ts) m
           = table_coef ts m + csum ps m"
    and "fst ` set (fold (\<lambda>t tab. table_insert_or_accumulate tab (fst t) (snd t)) ps ts)
           \<subseteq> fst ` set ps \<union> fst ` set ts"
  using assms
proof (induction ps arbitrary: ts)
  case Nil
  { case 1 then show ?case by simp }
  { case 2 then show ?case by simp }
  { case 3 then show ?case by simp }
next
  case (Cons t ps)
  { case 1
    then show ?case
      using Cons.IH(1) [OF table_insert_or_accumulate_ok(1) [OF 1]] by simp }
  { case 2
    then show ?case
      using Cons.IH(2) [OF table_insert_or_accumulate_ok(1) [OF 2]]
        table_insert_or_accumulate_ok(2) [OF 2]
      by (auto simp: algebra_simps) }
  { case 3
    then show ?case
      using Cons.IH(3) [OF table_insert_or_accumulate_ok(1) [OF 3], of "fst t" "snd t"]
        table_insert_or_accumulate_ok(3) [OF 3, of "fst t" "snd t"]
      by auto }
qed

lemma poly_terms_set:
  assumes "poly_ok hash p"
  shows "set (poly_terms p) = {(m, c). poly_coef hash p m = c \<and> c \<noteq> 0}"
proof -
  let ?n = "2 ^ n_segments p :: nat"
  have len: "length (segments p) = ?n"
    and ok: "\<And>seg. seg < ?n \<Longrightarrow> table_ok (segments p ! seg)"
    and dest: "\<And>seg t. seg < ?n \<Longrightarrow> t \<in> set (segments p ! seg) \<Longrightarrow> hash (fst t) mod ?n = seg"
    using assms by (auto simp: poly_ok_def)
  show ?thesis
  proof (intro set_eqI iffI)
    fix t assume "t \<in> set (poly_terms p)"
    then obtain ts where ts: "ts \<in> set (segments p)" "t \<in> set ts"
      by (auto simp: poly_terms_def)
    from ts(1) obtain seg where "seg < length (segments p)" "segments p ! seg = ts"
      by (auto simp: in_set_conv_nth)
    then have seg: "seg < ?n" "t \<in> set (segments p ! seg)"
      using len ts(2) by simp_all
    have "hash (fst t) mod ?n = seg" using dest [OF seg] .
    moreover have "t \<in> {(m, c). table_coef (segments p ! seg) m = c \<and> c \<noteq> 0}"
      using table_ok_set [OF ok [OF seg(1)]] seg(2) by simp
    ultimately show "t \<in> {(m, c). poly_coef hash p m = c \<and> c \<noteq> 0}"
      by (auto simp: poly_coef_def)
  next
    fix t assume t: "t \<in> {(m, c). poly_coef hash p m = c \<and> c \<noteq> 0}"
    let ?seg = "hash (fst t) mod ?n"
    have seg: "?seg < ?n" by simp
    have "t \<in> {(m, c). table_coef (segments p ! ?seg) m = c \<and> c \<noteq> 0}"
      using t by (auto simp: poly_coef_def)
    then have "t \<in> set (segments p ! ?seg)"
      using table_ok_set [OF ok [OF seg]] by simp
    then show "t \<in> set (poly_terms p)"
      using len seg unfolding poly_terms_def set_concat
      by (metis UN_I nth_mem)
  qed
qed

lemma insert_or_accumulate_ok:
  fixes p :: "('m, 'c::comm_ring_1) polynomial"
  assumes "poly_ok hash p"
  shows "poly_ok hash (insert_or_accumulate hash p m c)"
    and "poly_coef hash (insert_or_accumulate hash p m c) m'
           = poly_coef hash p m' + (if m' = m then c else 0)"
    and "n_segments (insert_or_accumulate hash p m c) = n_segments p"
    and "symbol_set (insert_or_accumulate hash p m c) = symbol_set p"
proof -
  let ?n = "2 ^ n_segments p :: nat"
  let ?s = "hash m mod ?n"
  let ?T = "table_insert_or_accumulate (segments p ! ?s) m c"
  have len: "length (segments p) = ?n"
    and ok: "\<And>seg. seg < ?n \<Longrightarrow> table_ok (segments p ! seg)"
    and dest: "\<And>seg t. seg < ?n \<Longrightarrow> t \<in> set (segments p ! seg) \<Longrightarrow> hash (fst t) mod ?n = seg"
    using assms by (auto simp: poly_ok_def)
  have s: "?s < ?n" by simp
  note T = table_insert_or_accumulate_ok [OF ok [OF s], of m c]
  have segs: "segments (insert_or_accumulate hash p m c) = (segments p)[?s := ?T]"
    and n: "n_segments (insert_or_accumulate hash p m c) = n_segments p"
    by (simp_all add: insert_or_accumulate_def Let_def)
  show "n_segments (insert_or_accumulate hash p m c) = n_segments p" by (rule n)
  show "symbol_set (insert_or_accumulate hash p m c) = symbol_set p"
    by (simp add: insert_or_accumulate_def Let_def)
  show "poly_ok hash (insert_or_accumulate hash p m c)"
    unfolding poly_ok_def segs n
  proof (intro conjI allI impI)
    show "length ((segments p)[?s := ?T]) = ?n" using len by simp
  next
    fix seg assume seg: "seg < ?n"
    show "table_ok ((segments p)[?s := ?T] ! seg)"
      using T(1) ok [OF seg] len s by (cases "seg = ?s") simp_all
    show "\<forall>t\<in>set ((segments p)[?s := ?T] ! seg). hash (fst t) mod ?n = seg"
    proof (cases "seg = ?s")
      case True
      have "hash (fst t) mod ?n = ?s" if "t \<in> set ?T" for t
      proof -
        have "fst t \<in> insert m (fst ` set (segments p ! ?s))" using T(3) that by auto
        then show ?thesis using dest [OF s] by auto
      qed
      then show ?thesis using True len s by simp
    next
      case False
      then show ?thesis using dest [OF seg] by simp
    qed
  qed
  show "poly_coef hash (insert_or_accumulate hash p m c) m'
           = poly_coef hash p m' + (if m' = m then c else 0)"
  proof (cases "hash m' mod ?n = ?s")
    case True
    then show ?thesis
      using T(2) [of m'] len s by (simp add: poly_coef_def segs n)
  next
    case False
    then have "m' \<noteq> m" by auto
    then show ?thesis using False by (simp add: poly_coef_def segs n)
  qed
qed

lemma fold_insert_or_accumulate_ok:
  fixes h :: "('m, 'c::comm_ring_1) polynomial"
  assumes "poly_ok hash h"
  shows "poly_ok hash (fold (\<lambda>t p. insert_or_accumulate hash p (fst t) (snd t)) ps h)"
    and "poly_coef hash (fold (\<lambda>t p. insert_or_accumulate hash p (fst t) (snd t)) ps h) m
           = poly_coef hash h m + csum ps m"
  using assms
proof (induction ps arbitrary: h)
  case Nil
  { case 1 then show ?case by simp }
  { case 2 then show ?case by simp }
next
  case (Cons t ps)
  { case 1
    then show ?case using Cons.IH(1) [OF insert_or_accumulate_ok(1) [OF 1]] by simp }
  { case 2
    then show ?case
      using Cons.IH(2) [OF insert_or_accumulate_ok(1) [OF 2]]
        insert_or_accumulate_ok(2) [OF 2]
      by (auto simp: algebra_simps) }
qed

lemma empty_poly_ok:
  fixes h :: "('m, 'c::comm_ring_1) polynomial"
  assumes "segments h = replicate (2 ^ n_segments h) []"
  shows "poly_ok hash h" "poly_coef hash h m = 0" "poly_terms h = []"
  using assms by (simp_all add: poly_ok_def poly_coef_def table_ok_def table_coef_def poly_terms_def)

lemma clear_terms_empty:
  "segments (clear_terms h) = replicate (2 ^ n_segments (clear_terms h)) []"
  by (simp add: clear_terms_def)

lemma csum_filter_dest:
  "csum (filter (\<lambda>t. d (fst t) = d m) ps) m = csum ps m"
  by (induction ps) auto

lemma stitched_ok:
  fixes h :: "('m, 'c::comm_ring_1) polynomial"
  defines "T \<equiv> \<lambda>hash n ps seg. fold (\<lambda>t tab. table_insert_or_accumulate tab (fst t) (snd t))
                (filter (\<lambda>t. hash (fst t) mod 2 ^ n = seg) ps) ([] :: ('m \<times> 'c) list)"
  shows "poly_ok hash (h\<lparr>n_segments := n, segments := map (T hash n ps) [0 ..< 2 ^ n]\<rparr>)"
    and "poly_coef hash (h\<lparr>n_segments := n, segments := map (T hash n ps) [0 ..< 2 ^ n]\<rparr>) m
           = csum ps m"
proof -
  have e: "table_ok ([] :: ('m \<times> 'c) list)" by (simp add: table_ok_def)
  note f = fold_table_ok [OF e]
  show "poly_ok hash (h\<lparr>n_segments := n, segments := map (T hash n ps) [0 ..< 2 ^ n]\<rparr>)"
    unfolding poly_ok_def
  proof (intro conjI allI impI)
    show "length (segments (h\<lparr>n_segments := n, segments := map (T hash n ps) [0 ..< 2 ^ n]\<rparr>))
        = 2 ^ n_segments (h\<lparr>n_segments := n, segments := map (T hash n ps) [0 ..< 2 ^ n]\<rparr>)"
      by simp
  next
    fix seg :: nat
    assume "seg < 2 ^ n_segments (h\<lparr>n_segments := n, segments := map (T hash n ps) [0 ..< 2 ^ n]\<rparr>)"
    then have seg: "seg < 2 ^ n" by simp
    show "table_ok (segments (h\<lparr>n_segments := n, segments := map (T hash n ps) [0 ..< 2 ^ n]\<rparr>) ! seg)"
      using seg f(1) by (simp add: T_def del: upt_Suc)
    have "fst ` set (T hash n ps seg) \<subseteq> fst ` set (filter (\<lambda>t. hash (fst t) mod 2 ^ n = seg) ps)"
      using f(3) [of "filter (\<lambda>t. hash (fst t) mod 2 ^ n = seg) ps"] by (simp add: T_def)
    then have "\<forall>t\<in>set (T hash n ps seg). hash (fst t) mod 2 ^ n = seg" by auto
    then show "\<forall>t\<in>set (segments (h\<lparr>n_segments := n, segments := map (T hash n ps) [0 ..< 2 ^ n]\<rparr>) ! seg).
        hash (fst t) mod 2 ^ n_segments (h\<lparr>n_segments := n, segments := map (T hash n ps) [0 ..< 2 ^ n]\<rparr>) = seg"
      using seg by (simp del: upt_Suc)
  qed
  have "table_coef (T hash n ps (hash m mod 2 ^ n)) m = csum ps m"
    using f(2) [of "filter (\<lambda>t. hash (fst t) mod 2 ^ n = hash m mod 2 ^ n) ps" m]
      csum_filter_dest [of "\<lambda>x. hash x mod 2 ^ n" m ps]
    by (simp add: T_def table_coef_def)
  then show "poly_coef hash (h\<lparr>n_segments := n, segments := map (T hash n ps) [0 ..< 2 ^ n]\<rparr>) m
           = csum ps m"
    by (simp add: poly_coef_def del: upt_Suc)
qed

lemma valid_monoE:
  assumes "valid_mono sg k m"
  obtains xs where "bit_unpack sg m k = Inr xs" "mono_exps sg k m = map (to_int sg) xs"
    "length xs = k"
proof -
  from assms obtain xs where xs: "bit_unpack sg m k = Inr xs"
    by (auto simp: valid_mono_def split: sum.splits)
  have "length xs = k"
  proof (cases "k = 0")
    case True
    then show ?thesis using xs by (auto simp: bit_unpack_size_0 split: if_splits)
  next
    case False
    then have "1 \<le> k" by simp
    from bit_unpack_Inr(2) [OF this xs] show ?thesis .
  qed
  with xs that show ?thesis by (simp add: mono_exps_def)
qed

lemma monomial_multiply_valid:
  fixes a b :: "'a::len word"
  assumes a: "valid_mono sg k a" and b: "valid_mono sg k b"
  shows "pair_fits sg k a b \<Longrightarrow>
           \<exists>c. monomial_multiply sg k a b = Inr c \<and> valid_mono sg k c
             \<and> mono_exps sg k c = map (\<lambda>(x, y). x + y) (zip (mono_exps sg k a) (mono_exps sg k b))"
    and "\<not> pair_fits sg k a b \<Longrightarrow> monomial_multiply sg k a b = Inl overflow_error"
proof -
  from a obtain xs where xs: "bit_unpack sg a k = Inr xs" "mono_exps sg k a = map (to_int sg) xs"
    by (rule valid_monoE)
  from b obtain ys where ys: "bit_unpack sg b k = Inr ys" "mono_exps sg k b = map (to_int sg) ys"
    by (rule valid_monoE)
  let ?zs = "map (\<lambda>(x, y). x + y) (zip xs ys)"
  have pf: "pair_fits sg k a b \<longleftrightarrow>
      (\<forall>(x, y)\<in>set (zip xs ys). in_slot sg (slot_bits sg LENGTH('a) k) (to_int sg x + to_int sg y))"
    unfolding pair_fits_def xs(2) ys(2) zip_map_map list_all_iff by auto
  note mm = monomial_multiply_cases [OF xs(1) ys(1)]
  show "\<exists>c. monomial_multiply sg k a b = Inr c \<and> valid_mono sg k c
             \<and> mono_exps sg k c = map (\<lambda>(x, y). x + y) (zip (mono_exps sg k a) (mono_exps sg k b))"
    if "pair_fits sg k a b"
  proof -
    from that pf have fit: "\<forall>(x, y)\<in>set (zip xs ys).
        in_slot sg (slot_bits sg LENGTH('a) k) (to_int sg x + to_int sg y)"
      by blast
    let ?c = "projr (bit_pack sg k ?zs)"
    from mm(2) [OF fit] have un: "bit_unpack sg ?c k = Inr ?zs"
      and pk: "bit_pack sg k ?zs = Inr ?c"
      and sums: "\<forall>(x, y)\<in>set (zip xs ys). to_int sg (x + y) = to_int sg x + to_int sg y"
      by blast+
    have "monomial_multiply sg k a b = Inr ?c"
      unfolding mm(1) if_P [OF fit] by (rule pk)
    moreover have "valid_mono sg k ?c" by (simp add: valid_mono_def un)
    moreover have "mono_exps sg k ?c
        = map (\<lambda>(x, y). x + y) (zip (mono_exps sg k a) (mono_exps sg k b))"
      unfolding xs(2) ys(2) zip_map_map using sums by (auto simp: mono_exps_def un)
    ultimately show ?thesis by blast
  qed
  show "monomial_multiply sg k a b = Inl overflow_error" if "\<not> pair_fits sg k a b"
  proof -
    from that pf have nf: "\<not> (\<forall>(x, y)\<in>set (zip xs ys).
        in_slot sg (slot_bits sg LENGTH('a) k) (to_int sg x + to_int sg y))"
      by blast
    show ?thesis unfolding mm(1) if_not_P [OF nf] ..
  qed
qed

lemma partial_degree_valid:
  assumes "valid_mono sg k m"
  shows "partial_degree sg k m idx = Inr (pdeg sg k m idx)"
proof -
  from assms obtain xs where xs: "bit_unpack sg m k = Inr xs"
    "mono_exps sg k m = map (to_int sg) xs" "length xs = k"
    by (rule valid_monoE)
  have "map (\<lambda>i. to_int sg (xs ! i)) (filter (\<lambda>i. i < k) idx)
      = map (\<lambda>i. map (to_int sg) xs ! i) (filter (\<lambda>i. i < k) idx)"
    using xs(3) by (intro map_cong) auto
  then have "sum_list (map (\<lambda>i. to_int sg (xs ! i)) (filter (\<lambda>i. i < k) idx))
      = sum_list (map (\<lambda>i. map (to_int sg) xs ! i) (filter (\<lambda>i. i < k) idx))"
    by (rule arg_cong)
  then show ?thesis unfolding partial_degree_def pdeg_def xs(1,2) using xs(3) by simp
qed

lemma mul_term_valid:
  fixes tf tg :: "'a::len word \<times> 'c::comm_ring_1"
  assumes a: "valid_mono sg k (fst tf)" and b: "valid_mono sg k (fst tg)"
  shows "pair_fits sg k (fst tf) (fst tg) \<Longrightarrow>
           mul_term sg k tr tf tg
             = Inr (case term_product sg k tr tf tg of [] \<Rightarrow> None | t # ts \<Rightarrow> Some t)"
    and "\<not> pair_fits sg k (fst tf) (fst tg) \<Longrightarrow> mul_term sg k tr tf tg = Inl overflow_error"
proof -
  show "mul_term sg k tr tf tg
             = Inr (case term_product sg k tr tf tg of [] \<Rightarrow> None | t # ts \<Rightarrow> Some t)"
    if "pair_fits sg k (fst tf) (fst tg)"
  proof -
    from monomial_multiply_valid(1) [OF a b that] obtain c where
      c: "monomial_multiply sg k (fst tf) (fst tg) = Inr c" "valid_mono sg k c"
      by blast
    show ?thesis
      by (auto simp: mul_term_def term_product_def c partial_degree_valid [OF c(2)] keeps_def
          split: option.splits)
  qed
  show "mul_term sg k tr tf tg = Inl overflow_error" if "\<not> pair_fits sg k (fst tf) (fst tg)"
    using monomial_multiply_valid(2) [OF a b that] by (simp add: mul_term_def)
qed

lemma simple_inner_char:
  fixes tf :: "'a::len word \<times> 'c::comm_ring_1"
  assumes "valid_mono sg k (fst tf)" "\<forall>tg\<in>set gs. valid_mono sg k (fst tg)"
  shows "simple_inner hash sg k tr h tf gs =
     (if \<forall>tg\<in>set gs. pair_fits sg k (fst tf) (fst tg)
      then Inr (fold (\<lambda>t p. insert_or_accumulate hash p (fst t) (snd t))
                  (concat (map (term_product sg k tr tf) gs)) h)
      else Inl overflow_error)"
  using assms(2)
proof (induction gs arbitrary: h)
  case Nil
  then show ?case by simp
next
  case (Cons tg gs)
  have b: "valid_mono sg k (fst tg)" using Cons.prems by simp
  note mt = mul_term_valid [OF assms(1) b, of tr]
  show ?case
  proof (cases "pair_fits sg k (fst tf) (fst tg)")
    case False
    then show ?thesis using mt(2) by simp
  next
    case True
    have ih: "simple_inner hash sg k tr h' tf gs =
     (if \<forall>tg\<in>set gs. pair_fits sg k (fst tf) (fst tg)
      then Inr (fold (\<lambda>t p. insert_or_accumulate hash p (fst t) (snd t))
                  (concat (map (term_product sg k tr tf) gs)) h')
      else Inl overflow_error)" for h'
      using Cons.prems by (intro Cons.IH) simp
    show ?thesis
    proof (cases "keeps sg k tr (projr (monomial_multiply sg k (fst tf) (fst tg)))")
      case k: True
      then have tp: "term_product sg k tr tf tg
          = [(projr (monomial_multiply sg k (fst tf) (fst tg)), snd tf * snd tg)]"
        by (simp add: term_product_def Let_def)
      show ?thesis using True mt(1) [OF True] by (simp add: ih tp)
    next
      case k: False
      then have tp: "term_product sg k tr tf tg = []"
        by (simp add: term_product_def Let_def)
      show ?thesis using True mt(1) [OF True] by (simp add: ih tp)
    qed
  qed
qed

lemma simple_outer_char:
  fixes fs gs :: "('a::len word \<times> 'c::comm_ring_1) list"
  assumes "\<forall>tf\<in>set fs. valid_mono sg k (fst tf)" "\<forall>tg\<in>set gs. valid_mono sg k (fst tg)"
  shows "simple_outer hash sg k tr h fs gs =
     (if all_fit sg k fs gs
      then Inr (fold (\<lambda>t p. insert_or_accumulate hash p (fst t) (snd t))
                  (all_products sg k tr fs gs) h)
      else Inl overflow_error)"
  using assms(1)
proof (induction fs arbitrary: h)
  case Nil
  then show ?case by (simp add: all_fit_def all_products_def)
next
  case (Cons tf fs)
  have a: "valid_mono sg k (fst tf)" using Cons.prems by simp
  note si = simple_inner_char [OF a assms(2), of hash tr]
  have ih: "simple_outer hash sg k tr h' fs gs =
     (if all_fit sg k fs gs
      then Inr (fold (\<lambda>t p. insert_or_accumulate hash p (fst t) (snd t))
                  (all_products sg k tr fs gs) h')
      else Inl overflow_error)" for h'
    using Cons.prems by (intro Cons.IH) simp
  show ?case
    by (auto simp: si ih all_fit_def all_products_def)
qed

lemma segment_inner_char:
  fixes tf :: "'a::len word \<times> 'c::comm_ring_1"
  assumes "valid_mono sg k (fst tf)" "\<forall>tg\<in>set gs. valid_mono sg k (fst tg)"
  shows "segment_inner hash sg k tr n seg tab tf gs =
     (if \<forall>tg\<in>set gs. pair_fits sg k (fst tf) (fst tg)
      then Inr (fold (\<lambda>t tab. table_insert_or_accumulate tab (fst t) (snd t))
                  (filter (\<lambda>t. hash (fst t) mod 2 ^ n = seg)
                     (concat (map (term_product sg k tr tf) gs))) tab)
      else Inl overflow_error)"
  using assms(2)
proof (induction gs arbitrary: tab)
  case Nil
  then show ?case by simp
next
  case (Cons tg gs)
  have b: "valid_mono sg k (fst tg)" using Cons.prems by simp
  note mt = mul_term_valid [OF assms(1) b, of tr]
  show ?case
  proof (cases "pair_fits sg k (fst tf) (fst tg)")
    case False
    then show ?thesis using mt(2) by simp
  next
    case True
    have ih: "segment_inner hash sg k tr n seg tab' tf gs =
     (if \<forall>tg\<in>set gs. pair_fits sg k (fst tf) (fst tg)
      then Inr (fold (\<lambda>t tab. table_insert_or_accumulate tab (fst t) (snd t))
                  (filter (\<lambda>t. hash (fst t) mod 2 ^ n = seg)
                     (concat (map (term_product sg k tr tf) gs))) tab')
      else Inl overflow_error)" for tab'
      using Cons.prems by (intro Cons.IH) simp
    show ?thesis
    proof (cases "keeps sg k tr (projr (monomial_multiply sg k (fst tf) (fst tg)))")
      case k: True
      then have tp: "term_product sg k tr tf tg
          = [(projr (monomial_multiply sg k (fst tf) (fst tg)), snd tf * snd tg)]"
        by (simp add: term_product_def Let_def)
      show ?thesis using True mt(1) [OF True] by (simp add: ih tp)
    next
      case k: False
      then have tp: "term_product sg k tr tf tg = []"
        by (simp add: term_product_def Let_def)
      show ?thesis using True mt(1) [OF True] by (simp add: ih tp)
    qed
  qed
qed

lemma segment_outer_char:
  fixes fs gs :: "('a::len word \<times> 'c::comm_ring_1) list"
  assumes "\<forall>tf\<in>set fs. valid_mono sg k (fst tf)" "\<forall>tg\<in>set gs. valid_mono sg k (fst tg)"
  shows "segment_outer hash sg k tr n seg tab fs gs =
     (if all_fit sg k fs gs
      then Inr (fold (\<lambda>t tab. table_insert_or_accumulate tab (fst t) (snd t))
                  (filter (\<lambda>t. hash (fst t) mod 2 ^ n = seg) (all_products sg k tr fs gs)) tab)
      else Inl overflow_error)"
  using assms(1)
proof (induction fs arbitrary: tab)
  case Nil
  then show ?case by (simp add: all_fit_def all_products_def)
next
  case (Cons tf fs)
  have a: "valid_mono sg k (fst tf)" using Cons.prems by simp
  note si = segment_inner_char [OF a assms(2), of hash tr n seg]
  have ih: "segment_outer hash sg k tr n seg tab' fs gs =
     (if all_fit sg k fs gs
      then Inr (fold (\<lambda>t tab. table_insert_or_accumulate tab (fst t) (snd t))
                  (filter (\<lambda>t. hash (fst t) mod 2 ^ n = seg) (all_products sg k tr fs gs)) tab')
      else Inl overflow_error)" for tab'
    using Cons.prems by (intro Cons.IH) simp
  show ?case
    by (auto simp: si ih all_fit_def all_products_def)
qed

lemma collect_segments_Inr: "collect_segments (map (\<lambda>x. Inr (f x)) xs) = Inr (map f xs)"
  by (induction xs) simp_all

lemma collect_segments_Inl: "xs \<noteq> [] \<Longrightarrow> collect_segments (map (\<lambda>x. Inl e) xs) = Inl e"
  by (cases xs) simp_all

lemma unpack_all_valid:
  assumes "\<forall>t\<in>set ts. valid_mono sg k (fst t)"
  shows "unpack_all sg k ts = Inr (map (\<lambda>t. projr (bit_unpack sg (fst t) k)) ts)"
  using assms
proof (induction ts)
  case Nil
  then show ?case by simp
next
  case (Cons t ts)
  then obtain xs where "bit_unpack sg (fst t) k = Inr xs"
    by (auto simp: valid_mono_def split: sum.splits)
  then show ?case using Cons by simp
qed

lemma slot_limits_ok:
  assumes k: "1 \<le> k" "valid_arity sg LENGTH('a::len) k"
  shows "slot_limits sg TYPE('a) k
           = Inr (slot_lo sg (slot_bits sg LENGTH('a) k), slot_hi sg (slot_bits sg LENGTH('a) k))"
proof (cases sg)
  case True
  then have kN: "k < LENGTH('a)" using k(2) by (simp add: valid_arity_def)
  define p where "p = signed_slot_bits LENGTH('a) k"
  obtain st0 :: "('a word) signed_bit_packer_impl" where ctor: "signed_bit_packer k = Inr st0"
    using k(1) kN by (cases "k = 1") (auto simp: signed_bit_packer_def Let_def)
  note c = signed_bit_packer_Inr [OF ctor k(1)]
  have st: "sp_min st0 = - (2 ^ (p - 1))" "sp_max st0 = 2 ^ (p - 1) - 1"
    unfolding p_def by (subst c(2), simp)+
  note pb = slot_bits_le [OF k, unfolded slot_bits_def if_P [OF True], folded p_def]
  have "sint (sp_min st0) = - (2 ^ (p - 1))" "sint (sp_max st0) = 2 ^ (p - 1) - 1"
    unfolding st using sint_neg_2p [OF pb] sint_2p_m1 [OF pb]
    by simp_all
  then show ?thesis
    using True by (simp add: slot_limits_def ctor slot_lo_def slot_hi_def slot_bits_def p_def)
next
  case False
  then have kN: "k \<le> LENGTH('a)" using k(2) by (simp add: valid_arity_def)
  have "uint (mask (LENGTH('a) div k) :: 'a word) = 2 ^ (LENGTH('a) div k) - 1"
    by (rule uint_mask_le) simp
  then show ?thesis
    using False
    by (simp add: slot_limits_def unsigned_bit_packer_Inr [OF k(1) kN] slot_lo_def slot_hi_def
        slot_bits_def)
qed

lemma min_max_pairs:
  fixes A B :: "int set"
  assumes "finite A" "A \<noteq> {}" "finite B" "B \<noteq> {}"
  shows "(\<forall>a\<in>A. \<forall>b\<in>B. lo \<le> a + b \<and> a + b \<le> hi)
           \<longleftrightarrow> lo \<le> Min A + Min B \<and> Max A + Max B \<le> hi"
proof
  assume h: "\<forall>a\<in>A. \<forall>b\<in>B. lo \<le> a + b \<and> a + b \<le> hi"
  have "Min A \<in> A" "Min B \<in> B" "Max A \<in> A" "Max B \<in> B"
    using assms by (auto intro: Min_in Max_in)
  then show "lo \<le> Min A + Min B \<and> Max A + Max B \<le> hi" using h by blast
next
  assume h: "lo \<le> Min A + Min B \<and> Max A + Max B \<le> hi"
  show "\<forall>a\<in>A. \<forall>b\<in>B. lo \<le> a + b \<and> a + b \<le> hi"
  proof (intro ballI)
    fix a b assume "a \<in> A" "b \<in> B"
    then have "Min A \<le> a" "a \<le> Max A" "Min B \<le> b" "b \<le> Max B"
      using assms by auto
    then show "lo \<le> a + b \<and> a + b \<le> hi" using h by linarith
  qed
qed

lemma ball_zip_nth:
  assumes "length xs = k" "length ys = k"
  shows "(\<forall>(x, y)\<in>set (zip xs ys). Q x y) \<longleftrightarrow> (\<forall>i<k. Q (xs ! i) (ys ! i))"
proof
  assume h: "\<forall>(x, y)\<in>set (zip xs ys). Q x y"
  show "\<forall>i<k. Q (xs ! i) (ys ! i)"
  proof (intro allI impI)
    fix i assume "i < k"
    then have "(xs ! i, ys ! i) \<in> set (zip xs ys)"
      using assms by (auto simp: set_zip)
    with h show "Q (xs ! i) (ys ! i)" by blast
  qed
next
  assume h: "\<forall>i<k. Q (xs ! i) (ys ! i)"
  show "\<forall>(x, y)\<in>set (zip xs ys). Q x y"
    using h assms by (auto simp: set_zip)
qed

lemma pair_fits_nth:
  fixes a b :: "'a::len word"
  assumes "valid_mono sg k a" "valid_mono sg k b"
  shows "pair_fits sg k a b \<longleftrightarrow>
     (\<forall>i<k. in_slot sg (slot_bits sg LENGTH('a) k) (mono_exps sg k a ! i + mono_exps sg k b ! i))"
proof -
  from assms(1) obtain xs where "bit_unpack sg a k = Inr xs"
    and xs: "mono_exps sg k a = map (to_int sg) xs" "length xs = k"
    by (rule valid_monoE)
  from assms(2) obtain ys where "bit_unpack sg b k = Inr ys"
    and ys: "mono_exps sg k b = map (to_int sg) ys" "length ys = k"
    by (rule valid_monoE)
  have "length (mono_exps sg k a) = k" "length (mono_exps sg k b) = k"
    using xs ys by simp_all
  from ball_zip_nth [OF this] show ?thesis
    unfolding pair_fits_def list_all_iff .
qed

lemma overflow_pre_check_char:
  fixes fs gs :: "('a::len word \<times> 'c) list"
  assumes vf: "\<forall>t\<in>set fs. valid_mono sg k (fst t)" and vg: "\<forall>t\<in>set gs. valid_mono sg k (fst t)"
  shows "overflow_pre_check sg k fs gs = (if all_fit sg k fs gs then None else Some overflow_error)"
proof (cases "fs = [] \<or> gs = []")
  case True
  then show ?thesis by (auto simp: overflow_pre_check_def all_fit_def)
next
  case False
  then have ne: "fs \<noteq> []" "gs \<noteq> []" by simp_all
  define xss where "xss = map (\<lambda>t. projr (bit_unpack sg (fst t) k)) fs"
  define yss where "yss = map (\<lambda>t. projr (bit_unpack sg (fst t) k)) gs"
  define p where "p = slot_bits sg LENGTH('a) k"
  have ux: "unpack_all sg k fs = Inr xss" and uy: "unpack_all sg k gs = Inr yss"
    unfolding xss_def yss_def by (rule unpack_all_valid [OF vf], rule unpack_all_valid [OF vg])
  have ex: "mono_exps sg k (fst t) = map (to_int sg) (projr (bit_unpack sg (fst t) k))"
    if "valid_mono sg k (fst t)" for t :: "'a word \<times> 'c"
    using that by (auto simp: valid_mono_def mono_exps_def split: sum.splits)
  have lx: "length (mono_exps sg k (fst t)) = k" if "valid_mono sg k (fst t)" for t :: "'a word \<times> 'c"
    using that by (auto elim!: valid_monoE)
  have fit: "all_fit sg k fs gs \<longleftrightarrow>
      (\<forall>i<k. \<forall>tf\<in>set fs. \<forall>tg\<in>set gs.
          in_slot sg p (mono_exps sg k (fst tf) ! i + mono_exps sg k (fst tg) ! i))"
  proof -
    have "pair_fits sg k (fst tf) (fst tg) \<longleftrightarrow>
        (\<forall>i<k. in_slot sg p (mono_exps sg k (fst tf) ! i + mono_exps sg k (fst tg) ! i))"
      if "tf \<in> set fs" "tg \<in> set gs" for tf tg
      unfolding p_def using pair_fits_nth vf vg that by blast
    then show ?thesis unfolding all_fit_def by blast
  qed
  show ?thesis
  proof (cases "k = 0")
    case True
    have "\<exists>r. slot_limits sg TYPE('a) 0 = Inr r"
      by (simp add: slot_limits_def signed_bit_packer_def unsigned_bit_packer_def)
    then show ?thesis
      using True ne fit ux uy by (auto simp: overflow_pre_check_def)
  next
    case k0: False
    then have k: "1 \<le> k" by simp
    obtain t where t: "t \<in> set fs" using ne(1) by (cases fs) auto
    then have "valid_mono sg k (fst t)" using vf by blast
    then obtain xs where "bit_unpack sg (fst t) k = Inr xs"
      by (auto elim: valid_monoE)
    from bit_unpack_Inr(1) [OF k this] have va: "valid_arity sg LENGTH('a) k" .
    note sl = slot_limits_ok [OF k va, folded p_def]
    have slot: "(lo \<le> slot_min sg xss i + slot_min sg yss i
                  \<and> slot_max sg xss i + slot_max sg yss i \<le> hi)
        \<longleftrightarrow> (\<forall>tf\<in>set fs. \<forall>tg\<in>set gs.
              lo \<le> mono_exps sg k (fst tf) ! i + mono_exps sg k (fst tg) ! i
              \<and> mono_exps sg k (fst tf) ! i + mono_exps sg k (fst tg) ! i \<le> hi)"
      if i: "i < k" for i lo hi
    proof -
      let ?A = "(\<lambda>t. mono_exps sg k (fst t) ! i) ` set fs"
      let ?B = "(\<lambda>t. mono_exps sg k (fst t) ! i) ` set gs"
      have A: "set (map (\<lambda>xs. to_int sg (xs ! i)) xss) = ?A"
      proof -
        have "to_int sg (projr (bit_unpack sg (fst t) k) ! i) = mono_exps sg k (fst t) ! i"
          if "t \<in> set fs" for t
          using ex [of t] lx [of t] vf that i by (metis length_map nth_map)
        then show ?thesis by (auto simp: xss_def image_iff)
      qed
      have B: "set (map (\<lambda>xs. to_int sg (xs ! i)) yss) = ?B"
      proof -
        have "to_int sg (projr (bit_unpack sg (fst t) k) ! i) = mono_exps sg k (fst t) ! i"
          if "t \<in> set gs" for t
          using ex [of t] lx [of t] vg that i by (metis length_map nth_map)
        then show ?thesis by (auto simp: yss_def image_iff)
      qed
      have "finite ?A" "?A \<noteq> {}" "finite ?B" "?B \<noteq> {}" using ne by auto
      from min_max_pairs [OF this, of lo hi] show ?thesis
        unfolding slot_min_def slot_max_def A B by blast
    qed
    have "(\<forall>i<k. slot_lo sg p \<le> slot_min sg xss i + slot_min sg yss i
                      \<and> slot_max sg xss i + slot_max sg yss i \<le> slot_hi sg p)
        \<longleftrightarrow> all_fit sg k fs gs"
      unfolding fit in_slot_def using slot [of _ "slot_lo sg p" "slot_hi sg p"] by blast
    then have "list_all (\<lambda>i. slot_lo sg p \<le> slot_min sg xss i + slot_min sg yss i
                      \<and> slot_max sg xss i + slot_max sg yss i \<le> slot_hi sg p) [0 ..< k]
        \<longleftrightarrow> all_fit sg k fs gs"
      by (auto simp: list_all_iff)
    then show ?thesis
      using ne by (simp add: overflow_pre_check_def ux uy sl)
  qed
qed

lemma mul_simple_char:
  fixes h f g :: "('a::len word, 'c::comm_ring_1) polynomial"
  assumes "\<forall>t\<in>set (poly_terms f). valid_mono sg (length (symbol_set h)) (fst t)"
    and "\<forall>t\<in>set (poly_terms g). valid_mono sg (length (symbol_set h)) (fst t)"
  shows "mul_simple hash sg h f g tr =
     (if all_fit sg (length (symbol_set h)) (poly_terms f) (poly_terms g)
      then (None, fold (\<lambda>t p. insert_or_accumulate hash p (fst t) (snd t))
                    (all_products sg (length (symbol_set h)) (truncation_idx (symbol_set h) tr)
                       (poly_terms f) (poly_terms g)) h)
      else (Some overflow_error, clear_terms h))"
  by (simp add: mul_simple_def Let_def simple_outer_char [OF assms])

lemma mul_mt_hm_char:
  fixes h f g :: "('a::len word, 'c::comm_ring_1) polynomial"
  assumes "\<forall>t\<in>set (poly_terms f). valid_mono sg (length (symbol_set h)) (fst t)"
    and "\<forall>t\<in>set (poly_terms g). valid_mono sg (length (symbol_set h)) (fst t)"
  shows "mul_mt_hm hash sg n_est h f g tr =
     (if all_fit sg (length (symbol_set h)) (poly_terms f) (poly_terms g)
      then (None, h\<lparr>n_segments := (if n_segments h \<noteq> 0 then n_segments h else n_est),
                    segments := map (\<lambda>seg. fold (\<lambda>t tab. table_insert_or_accumulate tab (fst t) (snd t))
                        (filter (\<lambda>t. hash (fst t) mod 2 ^ (if n_segments h \<noteq> 0 then n_segments h else n_est) = seg)
                           (all_products sg (length (symbol_set h)) (truncation_idx (symbol_set h) tr)
                              (poly_terms f) (poly_terms g))) [])
                      [0 ..< 2 ^ (if n_segments h \<noteq> 0 then n_segments h else n_est)]\<rparr>)
      else (Some overflow_error, h))"
proof (cases "all_fit sg (length (symbol_set h)) (poly_terms f) (poly_terms g)")
  case True
  show ?thesis
    unfolding mul_mt_hm_def Let_def overflow_pre_check_char [OF assms] segment_outer_char [OF assms]
    using True by (simp add: collect_segments_Inr del: upt_Suc)
next
  case False
  show ?thesis
    unfolding mul_mt_hm_def Let_def overflow_pre_check_char [OF assms]
    using False by simp
qed

lemma mul_simple_result:
  fixes h f g :: "('a::len word, 'c::comm_ring_1) polynomial"
  assumes vf: "\<forall>t\<in>set (poly_terms f). valid_mono sg (length (symbol_set h)) (fst t)"
    and vg: "\<forall>t\<in>set (poly_terms g). valid_mono sg (length (symbol_set h)) (fst t)"
    and e: "segments h = replicate (2 ^ n_segments h) []"
  shows "fst (mul_simple hash sg h f g tr) =
           (if all_fit sg (length (symbol_set h)) (poly_terms f) (poly_terms g)
            then None else Some overflow_error)"
    and "set (poly_terms (snd (mul_simple hash sg h f g tr))) =
           (if all_fit sg (length (symbol_set h)) (poly_terms f) (poly_terms g)
            then {(m, c). csum (all_products sg (length (symbol_set h))
                     (truncation_idx (symbol_set h) tr) (poly_terms f) (poly_terms g)) m = c \<and> c \<noteq> 0}
            else {})"
proof -
  note c = mul_simple_char [OF vf vg, of hash tr]
  show "fst (mul_simple hash sg h f g tr) =
           (if all_fit sg (length (symbol_set h)) (poly_terms f) (poly_terms g)
            then None else Some overflow_error)"
    by (simp add: c)
  note ok1 = empty_poly_ok(1) [OF e, of hash]
  note ok2 = empty_poly_ok(2) [OF e, of hash]
  note fo = fold_insert_or_accumulate_ok [OF ok1]
  show "set (poly_terms (snd (mul_simple hash sg h f g tr))) =
           (if all_fit sg (length (symbol_set h)) (poly_terms f) (poly_terms g)
            then {(m, c). csum (all_products sg (length (symbol_set h))
                     (truncation_idx (symbol_set h) tr) (poly_terms f) (poly_terms g)) m = c \<and> c \<noteq> 0}
            else {})"
  proof (cases "all_fit sg (length (symbol_set h)) (poly_terms f) (poly_terms g)")
    case True
    then show ?thesis
      by (simp add: c poly_terms_set [OF fo(1)] fo(2) ok2)
  next
    case False
    then show ?thesis
      by (simp add: c empty_poly_ok(3) [OF clear_terms_empty])
  qed
qed

lemma mul_mt_hm_result:
  fixes h f g :: "('a::len word, 'c::comm_ring_1) polynomial"
  assumes vf: "\<forall>t\<in>set (poly_terms f). valid_mono sg (length (symbol_set h)) (fst t)"
    and vg: "\<forall>t\<in>set (poly_terms g). valid_mono sg (length (symbol_set h)) (fst t)"
    and e: "segments h = replicate (2 ^ n_segments h) []"
  shows "fst (mul_mt_hm hash sg n_est h f g tr) =
           (if all_fit sg (length (symbol_set h)) (poly_terms f) (poly_terms g)
            then None else Some overflow_error)"
    and "set (poly_terms (snd (mul_mt_hm hash sg n_est h f g tr))) =
           (if all_fit sg (length (symbol_set h)) (poly_terms f) (poly_terms g)
            then {(m, c). csum (all_products sg (length (symbol_set h))
                     (truncation_idx (symbol_set h) tr) (poly_terms f) (poly_terms g)) m = c \<and> c \<noteq> 0}
            else {})"
proof -
  note c = mul_mt_hm_char [OF vf vg, of hash n_est tr]
  show "fst (mul_mt_hm hash sg n_est h f g tr) =
           (if all_fit sg (length (symbol_set h)) (poly_terms f) (poly_terms g)
            then None else Some overflow_error)"
    by (simp add: c)
  show "set (poly_terms (snd (mul_mt_hm hash sg n_est h f g tr))) =
           (if all_fit sg (length (symbol_set h)) (poly_terms f) (poly_terms g)
            then {(m, c). csum (all_products sg (length (symbol_set h))
                     (truncation_idx (symbol_set h) tr) (poly_terms f) (poly_terms g)) m = c \<and> c \<noteq> 0}
            else {})"
  proof (cases "all_fit sg (length (symbol_set h)) (poly_terms f) (poly_terms g)")
    case True
    then show ?thesis
      by (simp add: c poly_terms_set [OF stitched_ok(1)] stitched_ok(2) del: upt_Suc)
  next
    case False
    then show ?thesis
      by (simp add: c empty_poly_ok(3) [OF e])
  qed
qed

lemma keeps_None [simp]: "keeps sg k None m"
  by (simp add: keeps_def)

lemma term_product_filter:
  "term_product sg k tr tf tg
     = filter (\<lambda>t. keeps sg k tr (fst t)) (term_product sg k None tf tg)"
  by (simp add: term_product_def Let_def)

lemma all_products_filter:
  "all_products sg k tr fs gs
     = filter (\<lambda>t. keeps sg k tr (fst t)) (all_products sg k None fs gs)"
proof -
  have "concat (map (term_product sg k tr tf) gs)
      = filter (\<lambda>t. keeps sg k tr (fst t)) (concat (map (term_product sg k None tf) gs))" for tf
    by (induction gs) (simp_all add: term_product_filter [of sg k tr])
  then show ?thesis
    unfolding all_products_def by (induction fs) simp_all
qed

lemma csum_filter_keep:
  "csum (filter (\<lambda>t. P (fst t)) ps) m = (if P m then csum ps m else 0)"
  by (induction ps) auto

lemma csum_nonzero_in: "csum ps m \<noteq> 0 \<Longrightarrow> m \<in> fst ` set ps"
  by (induction ps) (auto split: if_splits)

lemma all_products_valid:
  fixes fs gs :: "('a::len word \<times> 'c::comm_ring_1) list"
  assumes vf: "\<forall>t\<in>set fs. valid_mono sg k (fst t)" and vg: "\<forall>t\<in>set gs. valid_mono sg k (fst t)"
    and fit: "all_fit sg k fs gs" and t: "t \<in> set (all_products sg k tr fs gs)"
  shows "\<exists>tf\<in>set fs. \<exists>tg\<in>set gs. monomial_multiply sg k (fst tf) (fst tg) = Inr (fst t)
           \<and> valid_mono sg k (fst t)
           \<and> mono_exps sg k (fst t)
               = map (\<lambda>(x, y). x + y) (zip (mono_exps sg k (fst tf)) (mono_exps sg k (fst tg)))"
proof -
  from t obtain tf tg where m: "tf \<in> set fs" "tg \<in> set gs" "t \<in> set (term_product sg k tr tf tg)"
    by (auto simp: all_products_def)
  have "pair_fits sg k (fst tf) (fst tg)" using fit m by (simp add: all_fit_def)
  from monomial_multiply_valid(1) [OF _ _ this] vf vg m obtain c where
    c: "monomial_multiply sg k (fst tf) (fst tg) = Inr c" "valid_mono sg k c"
    "mono_exps sg k c
       = map (\<lambda>(x, y). x + y) (zip (mono_exps sg k (fst tf)) (mono_exps sg k (fst tg)))"
    by blast
  have "fst t = c" using m(3) c(1) by (auto simp: term_product_def Let_def split: if_splits)
  then show ?thesis using m(1,2) c by blast
qed

text \<open>
  Claim C1.  Let the destination \<open>h\<close> be empty, and let every monomial of the operands
  \<open>f\<close> and \<open>g\<close> be a valid packed monomial for the arity of the symbol set of \<open>h\<close> (the
  invariant of section 3 of the spec; the three polynomials share the symbol set).  Then,
  with the same truncation argument (absent, \<open>d\<close> alone, or \<open>d\<close> and \<open>S\<close>), for every hash
  function and every segment selection, the simple multiplier and the segmented
  multiplier signal the same error or both succeed, and the destinations hold the same
  set of (monomial, coefficient) terms.  Coefficients are elements of a commutative ring.
\<close>

theorem mul_simple_eq_mul_mt_hm:
  fixes h f g :: "('a::len word, 'c::comm_ring_1) polynomial"
  assumes "\<forall>t\<in>set (poly_terms f). valid_mono sg (length (symbol_set h)) (fst t)"
    and "\<forall>t\<in>set (poly_terms g). valid_mono sg (length (symbol_set h)) (fst t)"
    and "segments h = replicate (2 ^ n_segments h) []"
  shows "fst (mul_simple hash sg h f g tr) = fst (mul_mt_hm hash sg n_est h f g tr)
       \<and> set (poly_terms (snd (mul_simple hash sg h f g tr)))
           = set (poly_terms (snd (mul_mt_hm hash sg n_est h f g tr)))"
  unfolding mul_simple_result [OF assms] mul_mt_hm_result [OF assms] by simp

text \<open>
  A consequence of the retention rule for operands without negative exponents (which
  always holds for an unsigned exponent type): let the destination \<open>h\<close> be empty and the
  monomials of \<open>f\<close> and \<open>g\<close> valid for the arity of the symbol set.  Then a multiplication
  truncated at any \<open>d < 0\<close>, over any \<open>S\<close>, leaves the destination without terms, for the
  simple and for the segmented multiplier.
\<close>

lemma negative_bound_empty_nonneg:
  fixes h f g :: "('a::len word, 'c::comm_ring_1) polynomial"
  assumes vf: "\<forall>t\<in>set (poly_terms f). valid_mono sg (length (symbol_set h)) (fst t)"
    and vg: "\<forall>t\<in>set (poly_terms g). valid_mono sg (length (symbol_set h)) (fst t)"
    and e: "segments h = replicate (2 ^ n_segments h) []"
    and nonneg: "\<forall>t\<in>set (poly_terms f) \<union> set (poly_terms g).
        \<forall>xs. bit_unpack sg (fst t) (length (symbol_set h)) = Inr xs
               \<longrightarrow> (\<forall>x\<in>set xs. 0 \<le> to_int sg x)"
    and d: "d < 0"
  shows "poly_terms (snd (mul_simple hash sg h f g (Some (d, S)))) = []
       \<and> poly_terms (snd (mul_mt_hm hash sg n_est h f g (Some (d, S)))) = []"
proof -
  define k where "k = length (symbol_set h)"
  define idx where "idx = (case S of None \<Rightarrow> [0 ..< k] | Some S' \<Rightarrow> symbol_idx (symbol_set h) S')"
  have ti: "truncation_idx (symbol_set h) (Some (d, S)) = Some (d, idx)"
    by (simp add: truncation_idx_def idx_def k_def split: option.splits)
  have nn: "\<forall>x\<in>set (mono_exps sg k (fst t)). 0 \<le> x"
    if "t \<in> set (poly_terms f) \<union> set (poly_terms g)" for t
  proof (cases "bit_unpack sg (fst t) k")
    case (Inl e)
    then show ?thesis by (simp add: mono_exps_def)
  next
    case (Inr xs)
    then have "\<forall>x\<in>set xs. 0 \<le> to_int sg x"
      using nonneg that unfolding k_def [symmetric] by blast
    then show ?thesis using Inr by (simp add: mono_exps_def)
  qed
  have nil: "all_products sg k (Some (d, idx)) (poly_terms f) (poly_terms g) = []"
    if fit: "all_fit sg k (poly_terms f) (poly_terms g)"
  proof (rule ccontr)
    assume "all_products sg k (Some (d, idx)) (poly_terms f) (poly_terms g) \<noteq> []"
    then obtain t where t: "t \<in> set (all_products sg k (Some (d, idx)) (poly_terms f) (poly_terms g))"
      by (cases "all_products sg k (Some (d, idx)) (poly_terms f) (poly_terms g)") auto
    from all_products_valid [OF vf [folded k_def] vg [folded k_def] fit t]
    obtain tf tg where tf: "tf \<in> set (poly_terms f)" and tg: "tg \<in> set (poly_terms g)"
      and v: "valid_mono sg k (fst t)"
      and ex: "mono_exps sg k (fst t)
               = map (\<lambda>(x, y). x + y) (zip (mono_exps sg k (fst tf)) (mono_exps sg k (fst tg)))"
      by blast
    have pos: "\<forall>z\<in>set (mono_exps sg k (fst t)). 0 \<le> z"
    proof
      fix z assume "z \<in> set (mono_exps sg k (fst t))"
      then obtain x y where "z = x + y" "x \<in> set (mono_exps sg k (fst tf))"
        "y \<in> set (mono_exps sg k (fst tg))"
        unfolding ex by (auto dest: set_zip_leftD set_zip_rightD)
      then show "0 \<le> z" using nn [of tf] nn [of tg] tf tg by auto
    qed
    from v obtain xs where "bit_unpack sg (fst t) k = Inr xs"
      and "mono_exps sg k (fst t) = map (to_int sg) xs" and "length xs = k"
      by (rule valid_monoE)
    then have len: "length (mono_exps sg k (fst t)) = k" by simp
    have "0 \<le> pdeg sg k (fst t) idx"
      unfolding pdeg_def using pos len by (intro sum_list_nonneg) auto
    moreover have "keeps sg k (Some (d, idx)) (fst t)"
      using t unfolding all_products_filter [of sg k "Some (d, idx)"] by simp
    ultimately show False using d by (simp add: keeps_def)
  qed
  have "set (poly_terms (snd (mul_simple hash sg h f g (Some (d, S))))) = {}"
    unfolding mul_simple_result(2) [OF vf vg e] ti k_def [symmetric] using nil by auto
  moreover have "set (poly_terms (snd (mul_mt_hm hash sg n_est h f g (Some (d, S))))) = {}"
    unfolding mul_mt_hm_result(2) [OF vf vg e] ti k_def [symmetric] using nil by auto
  ultimately show ?thesis by simp
qed

lemma test_unpack:
  "bit_unpack True (1 :: 64 word) 3 = Inr [1, 0, 0]"
  "bit_unpack True (2097152 :: 64 word) 3 = Inr [0, 1, 0]"
proof -
  have mn: "signed_packed_min 21 3 = - 4611688217451692032"
    by (simp add: signed_packed_min_def numeral_3_eq_3)
  have mx: "signed_packed_max 21 3 = 4611683819403083775"
    by (simp add: signed_packed_max_def numeral_3_eq_3)
  have pb: "signed_pbits 64 3 = 21" by (simp add: signed_pbits_def)
  have c1: "signed_bit_unpacker (1 :: 64 word) 3 = Inr \<lparr>su_value = 1, su_min = - 1048576,
      su_s_value = 4611688217451692033, su_index = 0, su_size = 3, su_pbits = 21,
      su_cur_shift = 0\<rparr>"
    by (simp add: signed_bit_unpacker_ge2 pb mn mx)
  have c2: "signed_bit_unpacker (2097152 :: 64 word) 3 = Inr \<lparr>su_value = 2097152,
      su_min = - 1048576, su_s_value = 4611688217453789184, su_index = 0, su_size = 3,
      su_pbits = 21, su_cur_shift = 0\<rparr>"
    by (simp add: signed_bit_unpacker_ge2 pb mn mx)
  show "bit_unpack True (1 :: 64 word) 3 = Inr [1, 0, 0]"
    using c1 by (simp add: bit_unpack_def signed_unpack_def numeral_3_eq_3 signed_pop_def)
  show "bit_unpack True (2097152 :: 64 word) 3 = Inr [0, 1, 0]"
    using c2 by (simp add: bit_unpack_def signed_unpack_def numeral_3_eq_3 signed_pop_def)
qed

lemma test_operands:
  "\<forall>t\<in>set (poly_terms test_x_plus_y). valid_mono True (length (symbol_set test_retval)) (fst t)"
  "\<forall>t\<in>set (poly_terms test_x_minus_y). valid_mono True (length (symbol_set test_retval)) (fst t)"
  "segments test_retval = replicate (2 ^ n_segments test_retval) []"
  "\<forall>t\<in>set (poly_terms test_x_plus_y) \<union> set (poly_terms test_x_minus_y).
     \<forall>xs. bit_unpack True (fst t) (length (symbol_set test_retval)) = Inr xs
            \<longrightarrow> (\<forall>x\<in>set xs. 0 \<le> to_int True x)"
proof -
  have l: "length (symbol_set test_retval) = 3" by (simp add: test_retval_def)
  show "\<forall>t\<in>set (poly_terms test_x_plus_y). valid_mono True (length (symbol_set test_retval)) (fst t)"
    unfolding l by (simp add: poly_terms_def test_x_plus_y_def valid_mono_def test_unpack)
  show "\<forall>t\<in>set (poly_terms test_x_minus_y). valid_mono True (length (symbol_set test_retval)) (fst t)"
    unfolding l by (simp add: poly_terms_def test_x_minus_y_def valid_mono_def test_unpack)
  show "segments test_retval = replicate (2 ^ n_segments test_retval) []"
    by (simp add: test_retval_def)
  show "\<forall>t\<in>set (poly_terms test_x_plus_y) \<union> set (poly_terms test_x_minus_y).
     \<forall>xs. bit_unpack True (fst t) (length (symbol_set test_retval)) = Inr xs
            \<longrightarrow> (\<forall>x\<in>set xs. 0 \<le> to_int True x)"
    unfolding l
    by (auto simp: poly_terms_def test_x_plus_y_def test_x_minus_y_def test_unpack to_int_def)
qed

theorem mul_simple_eq_mul_mt_hm_witness:
  "fst (mul_simple unat True test_retval test_x_plus_y test_x_minus_y (Some (0, Some [''x''])))
     = fst (mul_mt_hm unat True 2 test_retval test_x_plus_y test_x_minus_y (Some (0, Some [''x''])))
   \<and> set (poly_terms (snd (mul_simple unat True test_retval test_x_plus_y test_x_minus_y
                             (Some (0, Some [''x''])))))
     = set (poly_terms (snd (mul_mt_hm unat True 2 test_retval test_x_plus_y test_x_minus_y
                             (Some (0, Some [''x''])))))"
  by (rule mul_simple_eq_mul_mt_hm [OF test_operands(1,2,3)])

lemma negative_bound_empty_test:
  "poly_terms (snd (mul_simple unat True test_retval test_x_plus_y test_x_minus_y
                      (Some (- 1, Some [''x'', ''y''])))) = []
   \<and> poly_terms (snd (mul_mt_hm unat True 2 test_retval test_x_plus_y test_x_minus_y
                      (Some (- 1, Some [''x'', ''y''])))) = []"
proof -
  have d: "(- 1 :: int) < 0" by simp
  show ?thesis
    by (rule negative_bound_empty_nonneg [OF test_operands(1,2,3,4) d])
qed

text \<open>
  With a negative exponent the retention rule keeps a product under a negative bound:
  over the symbol set \<open>{x}\<close>, with signed 64-bit exponents, the product of \<open>x\<^sup>-\<^sup>1\<close> (the word
  \<open>-1\<close>) and \<open>1\<close> (the word \<open>0\<close>) has partial degree \<open>-1\<close> over \<open>{x}\<close>, and the
  multiplication truncated at \<open>d = -1\<close> keeps it.
\<close>

lemma laurent_negative_bound:
  "poly_terms (snd (mul_simple unat True
     \<lparr>symbol_set = [''x''], n_segments = 0, segments = [[]]\<rparr>
     \<lparr>symbol_set = [''x''], n_segments = 0, segments = [[(- 1 :: 64 word, 1 :: int)]]\<rparr>
     \<lparr>symbol_set = [''x''], n_segments = 0, segments = [[(0 :: 64 word, 1 :: int)]]\<rparr>
     (Some (- 1, Some [''x''])))) = [(- 1, 1)]"
proof -
  have u1: "bit_unpack True (- 1 :: 64 word) 1 = Inr [- 1]"
    by (simp add: bit_unpack_def signed_unpack_def signed_bit_unpacker_def signed_pop_def)
  have u0: "bit_unpack True (0 :: 64 word) 1 = Inr [0]"
    by (simp add: bit_unpack_def signed_unpack_def signed_bit_unpacker_def signed_pop_def)
  have p1: "bit_pack True 1 [- 1 :: 64 word] = Inr (- 1)"
    by (simp add: bit_pack_def signed_pack_def signed_bit_packer_def signed_push_def
        signed_get_def limits_min_def limits_max_def word_sless_alt)
  have mm: "monomial_multiply True 1 (- 1 :: 64 word) 0 = Inr (- 1)"
    using u1 u0 p1 by (simp add: monomial_multiply_def checked_add_def to_int_def)
  have pd: "partial_degree True 1 (- 1 :: 64 word) (symbol_idx [''x''] [''x'']) = Inr (- 1)"
    using u1 by (simp add: partial_degree_def symbol_idx_def to_int_def)
  show ?thesis
    using mm pd
    by (simp add: mul_simple_def poly_terms_def truncation_idx_def mul_term_def
        insert_or_accumulate_def table_insert_or_accumulate_def)
qed

section \<open>A case of the test file\<close>

lemma test_unpack_products:
  "bit_unpack True (2 :: 64 word) 3 = Inr [2, 0, 0]"
  "bit_unpack True (2097153 :: 64 word) 3 = Inr [1, 1, 0]"
  "bit_unpack True (4194304 :: 64 word) 3 = Inr [0, 2, 0]"
proof -
  have mn: "signed_packed_min 21 3 = - 4611688217451692032"
    by (simp add: signed_packed_min_def numeral_3_eq_3)
  have mx: "signed_packed_max 21 3 = 4611683819403083775"
    by (simp add: signed_packed_max_def numeral_3_eq_3)
  have pb: "signed_pbits 64 3 = 21" by (simp add: signed_pbits_def)
  have c: "signed_bit_unpacker (n :: 64 word) 3 = Inr \<lparr>su_value = n, su_min = - 1048576,
      su_s_value = n + 4611688217451692032, su_index = 0, su_size = 3, su_pbits = 21,
      su_cur_shift = 0\<rparr>"
    if "- 4611688217451692032 \<le> sint n" "sint n \<le> 4611683819403083775" for n
    using that by (simp add: signed_bit_unpacker_ge2 pb mn mx)
  show "bit_unpack True (2 :: 64 word) 3 = Inr [2, 0, 0]"
    using c [of 2] by (simp add: bit_unpack_def signed_unpack_def numeral_3_eq_3 signed_pop_def)
  show "bit_unpack True (2097153 :: 64 word) 3 = Inr [1, 1, 0]"
    using c [of 2097153]
    by (simp add: bit_unpack_def signed_unpack_def numeral_3_eq_3 signed_pop_def)
  show "bit_unpack True (4194304 :: 64 word) 3 = Inr [0, 2, 0]"
    using c [of 4194304]
    by (simp add: bit_unpack_def signed_unpack_def numeral_3_eq_3 signed_pop_def)
qed

lemma test_pack_products:
  "bit_pack True 3 [2, 0, 0 :: 64 word] = Inr 2"
  "bit_pack True 3 [1, 1, 0 :: 64 word] = Inr 2097153"
  "bit_pack True 3 [0, 2, 0 :: 64 word] = Inr 4194304"
  by (simp_all add: bit_pack_def signed_pack_def signed_bit_packer_def signed_pbits_def
      signed_push_def signed_get_def word_sless_alt)

lemma test_monomial_products:
  "monomial_multiply True 3 (1 :: 64 word) 1 = Inr 2"
  "monomial_multiply True 3 (1 :: 64 word) 2097152 = Inr 2097153"
  "monomial_multiply True 3 (2097152 :: 64 word) 1 = Inr 2097153"
  "monomial_multiply True 3 (2097152 :: 64 word) 2097152 = Inr 4194304"
  using test_pack_products
  by (simp_all add: monomial_multiply_def test_unpack checked_add_def to_int_def)

lemma test_partial_degrees:
  "partial_degree True 3 (2 :: 64 word) [0] = Inr 2"
  "partial_degree True 3 (2097153 :: 64 word) [0] = Inr 1"
  "partial_degree True 3 (4194304 :: 64 word) [0] = Inr 0"
  by (simp_all add: partial_degree_def test_unpack_products to_int_def)

lemma test_symbol_idx: "symbol_idx [''x'', ''y'', ''z''] [''x''] = [0]"
  by (simp add: symbol_idx_def numeral_3_eq_3)

text \<open>
  A case of test/polynomials_polynomial_02.cpp: the product of \<open>x + y\<close> and \<open>x - y\<close>
  truncated at partial degree \<open>0\<close> over \<open>{x}\<close> is \<open>-y\<^sup>2\<close>; the model of the simple multiplier
  returns the single term \<open>(y\<^sup>2, -1)\<close>, packed as the word \<open>4194304\<close>.
\<close>

lemma test_truncated_at_0_over_x:
  "mul_simple unat True test_retval test_x_plus_y test_x_minus_y (Some (0, Some [''x'']))
     = (None, \<lparr>symbol_set = [''x'', ''y'', ''z''], n_segments = 0,
               segments = [[(4194304, - 1)]]\<rparr>)"
proof -
  have l: "length [''x'', ''y'', ''z''] = 3" by simp
  show ?thesis
    unfolding mul_simple_def test_retval_def test_x_plus_y_def test_x_minus_y_def
      polynomial.select_convs l
    using test_monomial_products test_partial_degrees
    by (simp add: poly_terms_def truncation_idx_def test_symbol_idx mul_term_def
        insert_or_accumulate_def table_insert_or_accumulate_def)
qed

section \<open>Merging symbols: the packed monomial and the requirements on an implementation\<close>





lemma bit_unpack_inj:
  assumes "bit_unpack sg m1 k = Inr xs" "bit_unpack sg m2 k = Inr xs"
  shows "m1 = m2"
proof (cases "k = 0")
  case True
  then show ?thesis using assms by (auto simp: bit_unpack_size_0 split: if_splits)
next
  case False
  then have "1 \<le> k" by simp
  from bit_unpack_Inr(4) [OF this assms(1)] bit_unpack_Inr(4) [OF this assms(2)]
  show ?thesis by simp
qed











section \<open>The truncated product and the product of the polynomials\<close>

lemma mono_exps_inj:
  assumes a: "valid_mono sg k a" and b: "valid_mono sg k b"
    and e: "mono_exps sg k a = mono_exps sg k b"
  shows "a = b"
proof -
  from a obtain xs where xs: "bit_unpack sg a k = Inr xs" "mono_exps sg k a = map (to_int sg) xs"
    "length xs = k" by (rule valid_monoE)
  from b obtain ys where ys: "bit_unpack sg b k = Inr ys" "mono_exps sg k b = map (to_int sg) ys"
    "length ys = k" by (rule valid_monoE)
  have "inj (to_int sg :: 'a word \<Rightarrow> int)" by (rule injI) (rule to_int_inj)
  then have "xs = ys" using e xs(2) ys(2) by (simp add: inj_map_eq_map)
  with xs(1) ys(1) show ?thesis by (auto intro: bit_unpack_inj)
qed

lemma csum_concat: "csum (concat xss) m = sum_list (map (\<lambda>xs. csum xs m) xss)"
  by (induction xss) simp_all

lemma term_product_csum:
  fixes tf tg :: "'a::len word \<times> 'c::comm_ring_1"
  assumes a: "valid_mono sg k (fst tf)" and b: "valid_mono sg k (fst tg)"
    and fit: "pair_fits sg k (fst tf) (fst tg)"
  shows "csum (term_product sg k None tf tg) m =
     (if valid_mono sg k m
         \<and> map (\<lambda>(x, y). x + y) (zip (mono_exps sg k (fst tf)) (mono_exps sg k (fst tg)))
             = mono_exps sg k m
      then snd tf * snd tg else 0)"
proof -
  from monomial_multiply_valid(1) [OF a b fit] obtain c
    where c: "monomial_multiply sg k (fst tf) (fst tg) = Inr c" "valid_mono sg k c"
      "mono_exps sg k c
         = map (\<lambda>(x, y). x + y) (zip (mono_exps sg k (fst tf)) (mono_exps sg k (fst tg)))"
    by blast
  have "c = m \<longleftrightarrow> valid_mono sg k m \<and> mono_exps sg k c = mono_exps sg k m"
    using c(2) by (auto intro: mono_exps_inj)
  then show ?thesis
    unfolding c(3) [symmetric] by (simp add: term_product_def c(1))
qed

lemma all_products_csum:
  fixes fs gs :: "('a::len word \<times> 'c::comm_ring_1) list"
  assumes vf: "\<forall>t\<in>set fs. valid_mono sg k (fst t)" and vg: "\<forall>t\<in>set gs. valid_mono sg k (fst t)"
    and fit: "all_fit sg k fs gs"
  shows "csum (all_products sg k None fs gs) m =
     (if valid_mono sg k m then product_coef sg k fs gs (mono_exps sg k m) else 0)"
proof -
  have inner: "csum (concat (map (term_product sg k None tf) gs)) m =
      sum_list (map (\<lambda>tg.
         if valid_mono sg k m
            \<and> map (\<lambda>(x, y). x + y) (zip (mono_exps sg k (fst tf)) (mono_exps sg k (fst tg)))
                = mono_exps sg k m
         then snd tf * snd tg else 0) gs)" if tf: "tf \<in> set fs" for tf
  proof -
    have "map (\<lambda>tg. csum (term_product sg k None tf tg) m) gs =
        map (\<lambda>tg.
         if valid_mono sg k m
            \<and> map (\<lambda>(x, y). x + y) (zip (mono_exps sg k (fst tf)) (mono_exps sg k (fst tg)))
                = mono_exps sg k m
         then snd tf * snd tg else 0) gs"
    proof (rule map_cong [OF refl])
      fix tg assume "tg \<in> set gs"
      then show "csum (term_product sg k None tf tg) m =
         (if valid_mono sg k m
            \<and> map (\<lambda>(x, y). x + y) (zip (mono_exps sg k (fst tf)) (mono_exps sg k (fst tg)))
                = mono_exps sg k m
          then snd tf * snd tg else 0)"
        using term_product_csum [of sg k tf tg m] vf vg fit tf
        by (simp add: all_fit_def)
    qed
    then have "sum_list (map (\<lambda>tg. csum (term_product sg k None tf tg) m) gs) =
        sum_list (map (\<lambda>tg.
         if valid_mono sg k m
            \<and> map (\<lambda>(x, y). x + y) (zip (mono_exps sg k (fst tf)) (mono_exps sg k (fst tg)))
                = mono_exps sg k m
         then snd tf * snd tg else 0) gs)"
      by (rule arg_cong [where f = sum_list])
    moreover have "csum (concat (map (term_product sg k None tf) gs)) m =
        sum_list (map (\<lambda>tg. csum (term_product sg k None tf tg) m) gs)"
      by (simp add: csum_concat comp_def)
    ultimately show ?thesis by (rule trans [rotated])
  qed
  have "csum (all_products sg k None fs gs) m =
      sum_list (map (\<lambda>tf. csum (concat (map (term_product sg k None tf) gs)) m) fs)"
    by (simp add: all_products_def csum_concat comp_def)
  also have "map (\<lambda>tf. csum (concat (map (term_product sg k None tf) gs)) m) fs =
      map (\<lambda>tf. sum_list (map (\<lambda>tg.
         if valid_mono sg k m
            \<and> map (\<lambda>(x, y). x + y) (zip (mono_exps sg k (fst tf)) (mono_exps sg k (fst tg)))
                = mono_exps sg k m
         then snd tf * snd tg else 0) gs)) fs"
    by (rule map_cong [OF refl]) (rule inner)
  finally show ?thesis
    by (cases "valid_mono sg k m") (simp_all add: product_coef_def)
qed

lemma products_terms:
  fixes fs gs :: "('a::len word \<times> 'c::comm_ring_1) list"
  assumes vf: "\<forall>t\<in>set fs. valid_mono sg k (fst t)" and vg: "\<forall>t\<in>set gs. valid_mono sg k (fst t)"
    and fit: "all_fit sg k fs gs"
  shows "{(m, c). csum (all_products sg k tr fs gs) m = c \<and> c \<noteq> 0}
       = {t. full_product_term sg k fs gs t \<and> keeps sg k tr (fst t)}"
  unfolding all_products_filter [of sg k tr] csum_filter_keep [of "keeps sg k tr"]
    all_products_csum [OF vf vg fit]
  by (auto simp: full_product_term_def split: if_splits)

text \<open>
  Claim C2.  Let the destination \<open>h\<close> be empty and the monomials of \<open>f\<close> and \<open>g\<close> valid for
  the arity \<open>k\<close> of the symbol set.  For every bound \<open>d\<close> and every \<open>S\<close> (absent, or any list
  of symbols), the multiplication truncated at \<open>(d, S)\<close> succeeds exactly when the slot
  sums of every pair of terms lie in the slot range, and then its result holds exactly
  the (monomial, coefficient) pairs that are non-zero terms of the product \<open>f \<cdot> g\<close> and
  whose monomial has a partial degree over the positions of \<open>S\<close> in the symbol set of at
  most \<open>d\<close>; exponents at other positions do not count.  Otherwise it signals the overflow
  and the result has no terms.  This holds for the simple and for the segmented
  multiplier.
\<close>

theorem truncated_product_is_filtered_product:
  fixes h f g :: "('a::len word, 'c::comm_ring_1) polynomial"
  assumes "\<forall>t\<in>set (poly_terms f). valid_mono sg (length (symbol_set h)) (fst t)"
    and "\<forall>t\<in>set (poly_terms g). valid_mono sg (length (symbol_set h)) (fst t)"
    and "segments h = replicate (2 ^ n_segments h) []"
  shows "fst (mul_simple hash sg h f g (Some (d, S))) =
           (if all_fit sg (length (symbol_set h)) (poly_terms f) (poly_terms g)
            then None else Some overflow_error)
       \<and> set (poly_terms (snd (mul_simple hash sg h f g (Some (d, S))))) =
           {t. all_fit sg (length (symbol_set h)) (poly_terms f) (poly_terms g)
               \<and> full_product_term sg (length (symbol_set h)) (poly_terms f) (poly_terms g) t
               \<and> pdeg sg (length (symbol_set h)) (fst t)
                    (case S of None \<Rightarrow> [0 ..< length (symbol_set h)]
                             | Some S' \<Rightarrow> symbol_idx (symbol_set h) S') \<le> d}
       \<and> fst (mul_mt_hm hash sg n_est h f g (Some (d, S))) =
           (if all_fit sg (length (symbol_set h)) (poly_terms f) (poly_terms g)
            then None else Some overflow_error)
       \<and> set (poly_terms (snd (mul_mt_hm hash sg n_est h f g (Some (d, S))))) =
           {t. all_fit sg (length (symbol_set h)) (poly_terms f) (poly_terms g)
               \<and> full_product_term sg (length (symbol_set h)) (poly_terms f) (poly_terms g) t
               \<and> pdeg sg (length (symbol_set h)) (fst t)
                    (case S of None \<Rightarrow> [0 ..< length (symbol_set h)]
                             | Some S' \<Rightarrow> symbol_idx (symbol_set h) S') \<le> d}"
proof -
  define k where "k = length (symbol_set h)"
  define idx where "idx = (case S of None \<Rightarrow> [0 ..< k] | Some S' \<Rightarrow> symbol_idx (symbol_set h) S')"
  have ti: "truncation_idx (symbol_set h) (Some (d, S)) = Some (d, idx)"
    by (simp add: truncation_idx_def idx_def k_def split: option.splits)
  have kp: "keeps sg k (Some (d, idx)) m \<longleftrightarrow> pdeg sg k m idx \<le> d" for m
    by (simp add: keeps_def)
  note s = mul_simple_result [OF assms, of hash] and p = mul_mt_hm_result [OF assms, of hash n_est]
  show ?thesis
  proof (cases "all_fit sg k (poly_terms f) (poly_terms g)")
    case True
    note pt = products_terms [OF assms(1,2) [folded k_def] True, of "Some (d, idx)"]
    show ?thesis
      unfolding s p ti k_def [symmetric] idx_def [symmetric]
      using True by (simp add: pt kp)
  next
    case False
    show ?thesis
      unfolding s p ti k_def [symmetric] idx_def [symmetric]
      using False by simp
  qed
qed

lemma test_exponents:
  "mono_exps True 3 (1 :: 64 word) = [1, 0, 0]"
  "mono_exps True 3 (2097152 :: 64 word) = [0, 1, 0]"
  "mono_exps True 3 (4194304 :: 64 word) = [0, 2, 0]"
  "valid_mono True 3 (4194304 :: 64 word)"
  by (simp_all add: mono_exps_def valid_mono_def test_unpack test_unpack_products to_int_def)

lemma test_all_fit:
  "all_fit True 3 [(1 :: 64 word, 1 :: int), (2097152, 1)] [(1, 1), (2097152, - 1)]"
  by (simp add: all_fit_def pair_fits_def test_exponents in_slot_def slot_bits_def
      signed_slot_bits_def signed_pbits_def slot_lo_def slot_hi_def)

lemma test_product_coef:
  "product_coef True 3 [(1 :: 64 word, 1 :: int), (2097152, 1)] [(1, 1), (2097152, - 1)] e =
     (if e = [2, 0, 0] then 1 else if e = [0, 2, 0] then - 1 else 0)"
  by (auto simp: product_coef_def test_exponents)

lemma test_truncated_terms:
  "{t. full_product_term True 3 [(1 :: 64 word, 1 :: int), (2097152, 1)]
         [(1, 1), (2097152, - 1)] t
       \<and> pdeg True 3 (fst t) [0] \<le> 0} = {(4194304, - 1)}"
proof (intro equalityI subsetI)
  fix t :: "64 word \<times> int"
  assume "t \<in> {t. full_product_term True 3 [(1 :: 64 word, 1 :: int), (2097152, 1)]
         [(1, 1), (2097152, - 1)] t \<and> pdeg True 3 (fst t) [0] \<le> 0}"
  then have v: "valid_mono True 3 (fst t)"
    and c: "snd t = (if mono_exps True 3 (fst t) = [2, 0, 0] then 1
                 else if mono_exps True 3 (fst t) = [0, 2, 0] then - 1 else 0)"
    and nz: "snd t \<noteq> 0"
    and d: "mono_exps True 3 (fst t) ! 0 \<le> 0"
    by (simp_all add: full_product_term_def test_product_coef pdeg_def)
  have n2: "mono_exps True 3 (fst t) \<noteq> [2, 0, 0]"
  proof
    assume "mono_exps True 3 (fst t) = [2, 0, 0]"
    with d show False by simp
  qed
  have e: "mono_exps True 3 (fst t) = [0, 2, 0]"
  proof (rule ccontr)
    assume "mono_exps True 3 (fst t) \<noteq> [0, 2, 0]"
    with n2 have "snd t = 0" by (subst c) simp
    with nz show False ..
  qed
  have c1: "snd t = - 1" by (subst c) (simp add: e)
  from e have "mono_exps True 3 (fst t) = mono_exps True 3 (4194304 :: 64 word)"
    by (simp add: test_exponents)
  from mono_exps_inj [OF v test_exponents(4) this] c1
  show "t \<in> {(4194304, - 1)}" by (simp add: prod_eq_iff)
next
  fix t :: "64 word \<times> int"
  assume "t \<in> {(4194304, - 1)}"
  then have t: "t = (4194304, - 1)" by simp
  have "full_product_term True 3 [(1 :: 64 word, 1 :: int), (2097152, 1)]
         [(1, 1), (2097152, - 1)] (4194304, - 1)"
    by (simp add: full_product_term_def test_product_coef test_exponents)
  moreover have "pdeg True 3 (4194304 :: 64 word) [0] \<le> 0"
    by (simp add: pdeg_def test_exponents)
  ultimately show "t \<in> {t. full_product_term True 3 [(1 :: 64 word, 1 :: int), (2097152, 1)]
         [(1, 1), (2097152, - 1)] t \<and> pdeg True 3 (fst t) [0] \<le> 0}"
    unfolding t by simp
qed

theorem truncated_product_is_filtered_product_witness:
  "fst (mul_simple unat True test_retval test_x_plus_y test_x_minus_y (Some (0, Some [''x''])))
     = None
   \<and> set (poly_terms (snd (mul_simple unat True test_retval test_x_plus_y test_x_minus_y
                             (Some (0, Some [''x''])))))
     = {(4194304, - 1)}
   \<and> fst (mul_mt_hm unat True 2 test_retval test_x_plus_y test_x_minus_y (Some (0, Some [''x''])))
     = None
   \<and> set (poly_terms (snd (mul_mt_hm unat True 2 test_retval test_x_plus_y test_x_minus_y
                             (Some (0, Some [''x''])))))
     = {(4194304, - 1)}"
proof -
  have l: "length [''x'', ''y'', ''z''] = 3" by simp
  have ss: "symbol_set test_retval = [''x'', ''y'', ''z'']" by (simp add: test_retval_def)
  have fs: "poly_terms test_x_plus_y = [(1, 1), (2097152, 1)]"
    by (simp add: poly_terms_def test_x_plus_y_def)
  have gs: "poly_terms test_x_minus_y = [(1, 1), (2097152, - 1)]"
    by (simp add: poly_terms_def test_x_minus_y_def)
  have c: "(case Some [''x''] of None \<Rightarrow> [0 ..< 3]
            | Some S' \<Rightarrow> symbol_idx [''x'', ''y'', ''z''] S') = [0]"
    by (simp add: test_symbol_idx)
  have fit: "all_fit True 3 [(1 :: 64 word, 1 :: int), (2097152, 1)] [(1, 1), (2097152, - 1)]
      \<longleftrightarrow> True"
    using test_all_fit by simp
  show ?thesis
    using truncated_product_is_filtered_product [OF test_operands(1,2,3),
        of unat 0 "Some [''x'']" 2]
    unfolding ss l fs gs c fit simp_thms if_True test_truncated_terms .
qed

end
